theory Spec2Isabelle
  imports Complex_Main "HOL-Library.Word" "HOL-Library.Log_Nat"
begin

unbundle bit_operations_syntax

section \<open>Data model\<close>

text \<open>
  A Node \<open>Buffer\<close> is a sequence of bytes. JavaScript's bitwise operators work on 32-bit
  integers (ToInt32 of their operands), so the accumulators of the codec, of the dynamic
  truncation and of the comparison are 32-bit words; \<open>sint\<close> reads such a word back as
  the JavaScript number it stands for. A \<open>bigint\<close> is an \<open>int\<close>.

  Strings are lists of characters: the model covers the strings whose code units are
  below 256. \<open>toUpperCase\<close> leaves this range for two of them, so its result is a list
  of code units, which are natural numbers. A digit count is a natural number. The other
  numbers (time stamps, steps, windows) are doubles, see below.
\<close>

type_synonym byte = "8 word"
type_synonym buffer = "byte list"
type_synonym int32 = "32 word"

datatype error =
    InvalidBase32Character nat     \<comment> \<open>\<open>Error('Invalid Base32 character: c')\<close>, \<open>c\<close> by its code unit\<close>
  | HmacArgTypeError               \<comment> \<open>\<open>createHmac\<close> called with a hash name that is not a string\<close>
  | BigIntRangeError               \<comment> \<open>\<open>BigInt(x)\<close> for \<open>x\<close> infinite, NaN or not an integer\<close>
  | InvalidStringLength            \<comment> \<open>\<open>RangeError: Invalid string length\<close>\<close>
  | SecretRequired                 \<comment> \<open>\<open>Error('Secret is required')\<close>\<close>
  | TokenRequired                  \<comment> \<open>\<open>Error('Token is required')\<close>\<close>
  | SecretAndTokenRequired         \<comment> \<open>\<open>Error('Secret and token are required')\<close>\<close>

text \<open>
  The longest string of the engine: \<open>2^29 - 24\<close> code units (V8 on a 64-bit platform).
  An operation whose result would be a longer string throws
  \<open>RangeError: Invalid string length\<close>. This is so for \<open>s += c\<close>:
\<close>

definition maxStringLength :: nat where
  "maxStringLength = 2 ^ 29 - 24"

definition appendChar :: "string \<Rightarrow> char \<Rightarrow> error + string" where
  "appendChar s c =
     (if maxStringLength < length s + 1 then Inl InvalidStringLength else Inr (s @ [c]))"

section \<open>Numbers\<close>

text \<open>
  A JavaScript number is a double: a finite value, one of the two infinities, or NaN. A
  finite double is given by its value, a rational number. The sign of a zero is not kept:
  in this program it could only show in the sign of an infinite quotient, and \<open>BigInt\<close>
  rejects both infinities alike.
\<close>

datatype number = Finite rat | PosInf | NegInf | NaN

text \<open>The number whose value is an integer.\<close>

definition num :: "int \<Rightarrow> number" where
  "num n = Finite (of_int n)"

text \<open>
  Rounding to the nearest double, ties to even (IEEE 754, binary64). \<open>binade x\<close> is the
  exponent of \<open>x\<close>, that is \<open>\<lfloor>log\<^sub>2 |x|\<rfloor>\<close>, found from the bit lengths of the numerator
  and the denominator; below \<open>2^-1022\<close> the doubles are subnormal and keep the spacing
  \<open>2^-1074\<close>; a rounded value of \<open>2^1024\<close> or more is an overflow.
\<close>

definition roundHalfEven :: "rat \<Rightarrow> int" where
  "roundHalfEven r =
     (let f = \<lfloor>r\<rfloor>; d = r - of_int f
      in if d < 1 / 2 then f else if 1 / 2 < d then f + 1 else if even f then f else f + 1)"

definition binade :: "rat \<Rightarrow> int" where
  "binade x =
     (let (a, b) = quotient_of \<bar>x\<bar>; e = bitlen a - bitlen b
      in if 2 powi e \<le> \<bar>x\<bar> then e else e - 1)"

definition fl :: "rat \<Rightarrow> number" where
  "fl x =
     (if x = 0 then Finite 0
      else
        (let e = max (binade x) (- 1022);
             ulp = 2 powi (e - 52);
             y = of_int (roundHalfEven (\<bar>x\<bar> / ulp)) * ulp
         in if 2 powi 1024 \<le> y then (if 0 < x then PosInf else NegInf)
            else Finite (sgn x * y)))"

text \<open>
  The finite numbers that are doubles are those that rounding leaves unchanged.
\<close>

definition isDouble :: "number \<Rightarrow> bool" where
  "isDouble x = (case x of Finite r \<Rightarrow> fl r = Finite r | _ \<Rightarrow> True)"

text \<open>
  The operators that the program applies to numbers: unary minus, \<open>+\<close>, \<open>*\<close>, \<open>/\<close>,
  \<open><=\<close>, \<open>Math.floor\<close> and the conversion \<open>BigInt\<close>, which throws a RangeError unless
  its argument is an integer.
\<close>

fun jsNeg :: "number \<Rightarrow> number" where
  "jsNeg (Finite a) = Finite (- a)"
| "jsNeg PosInf = NegInf"
| "jsNeg NegInf = PosInf"
| "jsNeg NaN = NaN"

fun jsAdd :: "number \<Rightarrow> number \<Rightarrow> number" where
  "jsAdd (Finite a) (Finite b) = fl (a + b)"
| "jsAdd NaN y = NaN"
| "jsAdd x NaN = NaN"
| "jsAdd PosInf NegInf = NaN"
| "jsAdd NegInf PosInf = NaN"
| "jsAdd PosInf y = PosInf"
| "jsAdd NegInf y = NegInf"
| "jsAdd x PosInf = PosInf"
| "jsAdd x NegInf = NegInf"

fun jsMul :: "number \<Rightarrow> number \<Rightarrow> number" where
  "jsMul (Finite a) (Finite b) = fl (a * b)"
| "jsMul NaN y = NaN"
| "jsMul x NaN = NaN"
| "jsMul PosInf (Finite b) = (if b = 0 then NaN else if 0 < b then PosInf else NegInf)"
| "jsMul NegInf (Finite b) = (if b = 0 then NaN else if 0 < b then NegInf else PosInf)"
| "jsMul (Finite a) PosInf = (if a = 0 then NaN else if 0 < a then PosInf else NegInf)"
| "jsMul (Finite a) NegInf = (if a = 0 then NaN else if 0 < a then NegInf else PosInf)"
| "jsMul PosInf PosInf = PosInf"
| "jsMul PosInf NegInf = NegInf"
| "jsMul NegInf PosInf = NegInf"
| "jsMul NegInf NegInf = PosInf"

fun jsDiv :: "number \<Rightarrow> number \<Rightarrow> number" where
  "jsDiv (Finite a) (Finite b) =
     (if b = 0 then (if a = 0 then NaN else if 0 < a then PosInf else NegInf)
      else fl (a / b))"
| "jsDiv NaN y = NaN"
| "jsDiv x NaN = NaN"
| "jsDiv (Finite a) y = Finite 0"
| "jsDiv PosInf (Finite b) = (if 0 \<le> b then PosInf else NegInf)"
| "jsDiv NegInf (Finite b) = (if 0 \<le> b then NegInf else PosInf)"
| "jsDiv x y = NaN"

fun jsLe :: "number \<Rightarrow> number \<Rightarrow> bool" where
  "jsLe (Finite a) (Finite b) = (a \<le> b)"
| "jsLe NaN y = False"
| "jsLe x NaN = False"
| "jsLe NegInf y = True"
| "jsLe x PosInf = True"
| "jsLe x y = False"

fun Math_floor :: "number \<Rightarrow> number" where
  "Math_floor (Finite a) = Finite (of_int \<lfloor>a\<rfloor>)"
| "Math_floor x = x"

fun BigInt :: "number \<Rightarrow> error + int" where
  "BigInt (Finite a) = (if a = of_int \<lfloor>a\<rfloor> then Inr \<lfloor>a\<rfloor> else Inl BigIntRangeError)"
| "BigInt x = Inl BigIntRangeError"

section \<open>Base32 codec (base32.ts)\<close>

definition BASE32_CHARS :: string where
  "BASE32_CHARS = ''ABCDEFGHIJKLMNOPQRSTUVWXYZ234567''"

text \<open>The inner \<open>while (bits >= 5)\<close> loop of \<open>base32Encode\<close>; \<open>value\<close> is not changed by it.\<close>

function enc_while :: "nat \<Rightarrow> int32 \<Rightarrow> string \<Rightarrow> error + (nat \<times> string)" where
  "enc_while bits v output =
     (if bits \<ge> 5
      then (case appendChar output (BASE32_CHARS ! unat (drop_bit (bits - 5) v AND 31)) of
              Inl e \<Rightarrow> Inl e
            | Inr output' \<Rightarrow> enc_while (bits - 5) v output')
      else Inr (bits, output))"
  by pat_completeness auto
termination
  by (relation "measure (\<lambda>(bits, v, output). bits)") auto

declare enc_while.simps [simp del]

text \<open>The \<open>for\<close> loop of \<open>base32Encode\<close> over the bytes of the buffer.\<close>

fun enc_for :: "nat \<Rightarrow> int32 \<Rightarrow> string \<Rightarrow> buffer \<Rightarrow> error + (nat \<times> int32 \<times> string)" where
  "enc_for bits v output [] = Inr (bits, v, output)"
| "enc_for bits v output (b # bs) =
     (let v' = push_bit 8 v OR ucast b
      in case enc_while (bits + 8) v' output of
           Inl e \<Rightarrow> Inl e
         | Inr (bits', output') \<Rightarrow> enc_for bits' v' output' bs)"

definition base32Encode :: "buffer \<Rightarrow> error + string" where
  "base32Encode buf =
     (case enc_for 0 0 [] buf of
        Inl e \<Rightarrow> Inl e
      | Inr (bits, v, output) \<Rightarrow>
          if bits > 0
          then appendChar output (BASE32_CHARS ! unat (push_bit (5 - bits) v AND 31))
          else Inr output)"

text \<open>
  The class \<open>\s\<close> of a JavaScript regular expression, on code units below 256: tab, line
  feed, vertical tab, form feed, carriage return, space and the no-break space.
\<close>

definition isSpace :: "char \<Rightarrow> bool" where
  "isSpace c = (of_char c \<in> {9, 10, 11, 12, 13, 32, 160 :: nat})"

text \<open>
  \<open>String.prototype.toUpperCase\<close> on code units below 256, after the case mappings of
  Unicode: the letters \<open>a\<close>..\<open>z\<close> and U+00E0..U+00FE other than the division sign U+00F7
  move down by 32; the sharp s U+00DF becomes the two letters \<open>SS\<close>; the micro sign
  U+00B5 becomes U+039C and U+00FF becomes U+0178, which are not below 256. Every other
  code unit is kept. The result is longer than the string when there is a sharp s in it,
  and a result longer than the longest string is a RangeError (a result as long as the
  string itself is not: the string is one).
\<close>

definition toUpperUnits :: "char \<Rightarrow> nat list" where
  "toUpperUnits c =
     (let u = (of_char c :: nat)
      in if 97 \<le> u \<and> u \<le> 122 then [u - 32]
         else if u = 181 then [924]
         else if u = 223 then [83, 83]
         else if 224 \<le> u \<and> u \<le> 254 \<and> u \<noteq> 247 then [u - 32]
         else if u = 255 then [376]
         else [u])"

definition toUpperCase :: "string \<Rightarrow> error + nat list" where
  "toUpperCase s =
     (let r = concat (map toUpperUnits s)
      in if length s < length r \<and> maxStringLength < length r then Inl InvalidStringLength
         else Inr r)"

text \<open>The code units of a string of the model.\<close>

definition codeUnits :: "string \<Rightarrow> nat list" where
  "codeUnits s = map of_char s"

text \<open>\<open>String.prototype.indexOf\<close> for one character: the first position, or \<open>-1\<close>.\<close>

fun indexOf :: "'a list \<Rightarrow> 'a \<Rightarrow> int" where
  "indexOf [] c = - 1"
| "indexOf (x # xs) c =
     (if x = c then 0
      else (let r = indexOf xs c in if r = - 1 then - 1 else r + 1))"

text \<open>
  The \<open>for\<close> loop of \<open>base32Decode\<close>. The output buffer is allocated by the caller and
  written by index; a write beyond the end of a \<open>Buffer\<close> is ignored, as \<open>list_update\<close>
  ignores it.
\<close>

fun dec_for :: "nat \<Rightarrow> int32 \<Rightarrow> nat \<Rightarrow> buffer \<Rightarrow> nat list \<Rightarrow> error + (nat \<times> buffer)" where
  "dec_for bits v index output [] = Inr (index, output)"
| "dec_for bits v index output (c # rest) =
     (let charIndex = indexOf (codeUnits BASE32_CHARS) c
      in if charIndex = - 1 then Inl (InvalidBase32Character c)
         else
           (let v' = push_bit 5 v OR word_of_int charIndex;
                bits' = bits + 5
            in if bits' \<ge> 8
               then dec_for (bits' - 8) v' (index + 1)
                      (output[index := ucast (drop_bit (bits' - 8) v' AND 255)]) rest
               else dec_for bits' v' index output rest))"

definition stripWhitespace :: "string \<Rightarrow> string" where
  "stripWhitespace s = filter (\<lambda>c. \<not> isSpace c) s"

definition base32Decode :: "string \<Rightarrow> error + buffer" where
  "base32Decode base32 =
     (case toUpperCase (stripWhitespace base32) of
        Inl e \<Rightarrow> Inl e
      | Inr s \<Rightarrow>
          (let output = replicate ((length s * 5 + 7) div 8) (0 :: byte)
           in case dec_for 0 0 0 output s of
                Inl e \<Rightarrow> Inl e
              | Inr (index, out) \<Rightarrow> Inr (take index out)))"

section \<open>HOTP and TOTP (totp.ts)\<close>

text \<open>
  The HMAC primitive of Node's \<open>crypto\<close> module is a collaborator of the program: given
  the hash name, the key and the message it returns the digest. It is a parameter of the
  model.
\<close>

type_synonym hmac_fn = "string \<Rightarrow> buffer \<Rightarrow> buffer \<Rightarrow> buffer"

definition algoMap :: "string \<rightharpoonup> string" where
  "algoMap = map_of [(''SHA-1'', ''sha1''), (''SHA-256'', ''sha256''), (''SHA-512'', ''sha512'')]"

text \<open>
  The loop \<open>for (let i = 7; i >= 0; i--)\<close> that fills the counter buffer:
  \<open>counter_for n\<close> still has the indices \<open>n - 1\<close> down to \<open>0\<close> to write.
\<close>

fun counter_for :: "nat \<Rightarrow> buffer \<Rightarrow> int \<Rightarrow> buffer" where
  "counter_for 0 counterBuffer counterValue = counterBuffer"
| "counter_for (Suc i) counterBuffer counterValue =
     counter_for i (counterBuffer[i := word_of_int (counterValue AND 255)])
       (drop_bit 8 counterValue)"

definition counterBytes :: "int \<Rightarrow> buffer" where
  "counterBytes counter = counter_for 8 (replicate 8 0) counter"

text \<open>
  \<open>digest[i]\<close> as an operand of a bitwise operator: the byte, or \<open>undefined\<close> out of
  range, which ToInt32 turns into 0.
\<close>

definition byteAt :: "buffer \<Rightarrow> int \<Rightarrow> int32" where
  "byteAt d i = (if 0 \<le> i \<and> i < int (length d) then ucast (d ! nat i) else 0)"

definition truncOffset :: "buffer \<Rightarrow> nat" where
  "truncOffset digest = unat (byteAt digest (int (length digest) - 1) AND 15)"

definition truncCode :: "buffer \<Rightarrow> int32" where
  "truncCode digest =
     (let offset = int (truncOffset digest)
      in push_bit 24 (byteAt digest offset AND 127)
         OR push_bit 16 (byteAt digest (offset + 1) AND 255)
         OR push_bit 8 (byteAt digest (offset + 2) AND 255)
         OR (byteAt digest (offset + 3) AND 255))"

text \<open>The remainder operator \<open>%\<close> of JavaScript on integers: the sign of the dividend.\<close>

definition jsRem :: "int \<Rightarrow> int \<Rightarrow> int" where
  "jsRem a b = sgn a * (\<bar>a\<bar> mod \<bar>b\<bar>)"

definition digitChar :: "nat \<Rightarrow> char" where
  "digitChar d = char_of (48 + d)"

function natToString :: "nat \<Rightarrow> string" where
  "natToString n =
     (if n < 10 then [digitChar n] else natToString (n div 10) @ [digitChar (n mod 10)])"
  by pat_completeness auto
termination
  by (relation "measure id") auto

declare natToString.simps [simp del]

text \<open>\<open>Number.prototype.toString\<close> on an integer.\<close>

definition numToString :: "int \<Rightarrow> string" where
  "numToString x = (if x < 0 then CHR ''-'' # natToString (nat (- x)) else natToString (nat x))"

text \<open>
  \<open>String.prototype.padStart\<close> with a filler of one character returns the string itself
  when it is long enough already, and throws a RangeError when the length asked for exceeds
  the longest string.
\<close>

definition padStart :: "nat \<Rightarrow> char \<Rightarrow> string \<Rightarrow> error + string" where
  "padStart n c s =
     (if n \<le> length s then Inr s
      else if maxStringLength < n then Inl InvalidStringLength
      else Inr (replicate (n - length s) c @ s))"

text \<open>
  \<open>generateHOTP\<close>. A selector that is not a key of \<open>algoMap\<close> makes the lookup yield no
  string, and \<open>createHmac\<close> rejects a hash name that is not a string with a TypeError
  before any key or message is processed. \<open>Math.pow(10, digits)\<close> is the power of ten
  for a natural number of digits: exact as a double up to \<open>10^22\<close>, and beyond that
  larger than any 32-bit code, so that the remainder is the one on the integers.
\<close>

definition generateHOTP :: "hmac_fn \<Rightarrow> buffer \<Rightarrow> int \<Rightarrow> nat \<Rightarrow> string \<Rightarrow> error + string" where
  "generateHOTP hmac secret counter digits algorithm =
     (let counterBuffer = counterBytes counter
      in case algoMap algorithm of
           None \<Rightarrow> Inl HmacArgTypeError
         | Some name \<Rightarrow>
             (let digest = hmac name secret counterBuffer;
                  code = sint (truncCode digest);
                  otp = numToString (jsRem code (10 ^ digits))
              in padStart digits CHR ''0'' otp))"

text \<open>
  \<open>generateTOTP\<close>: the counter is \<open>BigInt(Math.floor(timestamp / step))\<close>, computed
  after the secret has been decoded.
\<close>

definition generateTOTP ::
  "hmac_fn \<Rightarrow> string \<Rightarrow> number \<Rightarrow> number \<Rightarrow> nat \<Rightarrow> string \<Rightarrow> error + string" where
  "generateTOTP hmac secret timestamp step digits algorithm =
     (case base32Decode secret of
        Inl e \<Rightarrow> Inl e
      | Inr secretBuffer \<Rightarrow>
          (case BigInt (Math_floor (jsDiv timestamp step)) of
             Inl e \<Rightarrow> Inl e
           | Inr counter \<Rightarrow> generateHOTP hmac secretBuffer counter digits algorithm))"

text \<open>\<open>s.charCodeAt(i)\<close> as an operand of \<open>^\<close>: the code unit, or NaN, which ToInt32 turns into 0.\<close>

definition charCodeAt :: "string \<Rightarrow> nat \<Rightarrow> int32" where
  "charCodeAt s i = (if i < length s then of_nat (of_char (s ! i)) else 0)"

function ctc_for :: "string \<Rightarrow> string \<Rightarrow> nat \<Rightarrow> int32 \<Rightarrow> int32" where
  "ctc_for a b i result =
     (if i < length a
      then ctc_for a b (i + 1) (result OR (charCodeAt a i XOR charCodeAt b i))
      else result)"
  by pat_completeness auto
termination
  by (relation "measure (\<lambda>(a, b, i, result). length a - i)") auto

declare ctc_for.simps [simp del]

definition constantTimeCompare :: "string \<Rightarrow> string \<Rightarrow> bool" where
  "constantTimeCompare a b =
     (if length a \<noteq> length b then False else ctc_for a b 0 0 = 0)"

text \<open>
  The loop \<open>for (let i = -window; i <= window; i++)\<close> of \<open>verifyTOTP\<close>, from \<open>i\<close> on.
  The loop variable is a double: from \<open>2^53\<close> on \<open>i++\<close> leaves it unchanged, and the loop
  does not end when the window is that large and no token matches. The result \<open>None\<close>
  stands for a call that does not return.
\<close>

partial_function (option) verify_for ::
  "hmac_fn \<Rightarrow> string \<Rightarrow> string \<Rightarrow> number \<Rightarrow> number \<Rightarrow> number \<Rightarrow> nat \<Rightarrow> string \<Rightarrow> number
     \<Rightarrow> (error + bool) option" where
  "verify_for hmac secret token timestamp window step digits algorithm i =
     (if jsLe i window
      then (let adjustedTimestamp = jsAdd timestamp (jsMul i step)
            in case generateTOTP hmac secret adjustedTimestamp step digits algorithm of
                 Inl e \<Rightarrow> Some (Inl e)
               | Inr expectedToken \<Rightarrow>
                   if constantTimeCompare token expectedToken then Some (Inr True)
                   else verify_for hmac secret token timestamp window step digits algorithm
                          (jsAdd i (num 1)))
      else Some (Inr False))"

declare verify_for.simps [code]

definition verifyTOTP ::
  "hmac_fn \<Rightarrow> string \<Rightarrow> string \<Rightarrow> number \<Rightarrow> number \<Rightarrow> number \<Rightarrow> nat \<Rightarrow> string
     \<Rightarrow> (error + bool) option" where
  "verifyTOTP hmac secret token timestamp window step digits algorithm =
     verify_for hmac secret token timestamp window step digits algorithm (jsNeg window)"

section \<open>Public API (index.ts)\<close>

text \<open>
  The options objects. An optional field that is absent is \<open>None\<close>. \<open>VerifyOptions\<close>
  has the fields of \<open>TokenOptions\<close> and two more. The field names carry the prefix
  \<open>opt_\<close>, since a record field is a constant of the theory.
\<close>

record TokenOptions =
  opt_secret :: string
  opt_step :: "number option"
  opt_digits :: "nat option"
  opt_algorithm :: "string option"
  opt_timestamp :: "number option"

record VerifyOptions = TokenOptions +
  opt_token :: string
  opt_window :: "number option"

text \<open>The argument \<open>optionsOrSecret\<close>: a string or an options object.\<close>

datatype 'o optionsOrSecret = Secret string | Options 'o

text \<open>
  \<open>x || d\<close>. On an optional number \<open>undefined\<close>, \<open>0\<close> and NaN are falsy; on an optional
  digit count \<open>undefined\<close> and \<open>0\<close>; on an optional string \<open>undefined\<close> and the empty
  string.
\<close>

definition orNumber :: "number option \<Rightarrow> number \<Rightarrow> number" where
  "orNumber x d =
     (case x of None \<Rightarrow> d | Some v \<Rightarrow> if v = Finite 0 \<or> v = NaN then d else v)"

definition orNum :: "nat option \<Rightarrow> nat \<Rightarrow> nat" where
  "orNum x d = (case x of None \<Rightarrow> d | Some v \<Rightarrow> if v = 0 then d else v)"

definition orStr :: "string option \<Rightarrow> string \<Rightarrow> string" where
  "orStr x d = (case x of None \<Rightarrow> d | Some v \<Rightarrow> if v = [] then d else v)"

text \<open>
  \<open>generateToken\<close>; \<open>now\<close> is the value of \<open>Math.floor(Date.now() / 1000)\<close> at the call.
\<close>

definition generateToken ::
  "hmac_fn \<Rightarrow> number \<Rightarrow> TokenOptions optionsOrSecret \<Rightarrow> error + string" where
  "generateToken hmac now arg =
     (let (secret, step, digits, algorithm, timestamp) =
            (case arg of
               Secret s \<Rightarrow> (s, num 30, 6, ''SHA-1'', now)
             | Options opts \<Rightarrow>
                 (opt_secret opts, orNumber (opt_step opts) (num 30), orNum (opt_digits opts) 6,
                  orStr (opt_algorithm opts) ''SHA-1'', orNumber (opt_timestamp opts) now))
      in if secret = [] then Inl SecretRequired
         else generateTOTP hmac secret timestamp step digits algorithm)"

text \<open>The replacement \<open>token.replace(/[\s-]/g, '')\<close>.\<close>

definition normalizeToken :: "string \<Rightarrow> string" where
  "normalizeToken t = filter (\<lambda>c. \<not> (isSpace c \<or> c = CHR ''-'')) t"

text \<open>
  The part of \<open>verifyToken\<close> after the two call forms have been told apart: the check of
  the two strings, the normalisation of the candidate and the call of \<open>verifyTOTP\<close>.
\<close>

definition verifyToken_checked ::
  "hmac_fn \<Rightarrow> string \<Rightarrow> string \<Rightarrow> number \<Rightarrow> number \<Rightarrow> number \<Rightarrow> nat \<Rightarrow> string
     \<Rightarrow> (error + bool) option" where
  "verifyToken_checked hmac secret tokenToVerify timestamp window step digits algorithm =
     (if secret = [] \<or> tokenToVerify = [] then Some (Inl SecretAndTokenRequired)
      else verifyTOTP hmac secret (normalizeToken tokenToVerify) timestamp window step digits
             algorithm)"

definition verifyToken ::
  "hmac_fn \<Rightarrow> number \<Rightarrow> VerifyOptions optionsOrSecret \<Rightarrow> string option
     \<Rightarrow> (error + bool) option" where
  "verifyToken hmac now arg token =
     (case arg of
        Secret s \<Rightarrow>
          (case token of
             None \<Rightarrow> Some (Inl TokenRequired)
           | Some t \<Rightarrow>
               if t = [] then Some (Inl TokenRequired)
               else verifyToken_checked hmac s t now (num 1) (num 30) 6 ''SHA-1'')
      | Options opts \<Rightarrow>
          verifyToken_checked hmac (opt_secret opts) (opt_token opts)
            (orNumber (opt_timestamp opts) now)
            (case opt_window opts of None \<Rightarrow> num 1 | Some w \<Rightarrow> w)
            (orNumber (opt_step opts) (num 30)) (orNum (opt_digits opts) 6)
            (orStr (opt_algorithm opts) ''SHA-1''))"

section \<open>The HMAC collaborator (Node's crypto module)\<close>

text \<open>
  \<open>createHmac(name, key)\<close>, \<open>update(message)\<close> and \<open>digest()\<close> belong to Node, not to this
  program. The functions of the program take the primitive as a parameter; \<open>nodeHmac\<close>
  below is the primitive that Node provides for the three hash names of \<open>algoMap\<close>: HMAC
  (RFC 2104) over SHA-1, SHA-256 and SHA-512 (FIPS 180-4).
\<close>

subsection \<open>SHA-1\<close>

definition rotl32 :: "nat \<Rightarrow> int32 \<Rightarrow> int32" where
  "rotl32 n x = push_bit n x OR drop_bit (32 - n) x"

definition sha1_f :: "nat \<Rightarrow> int32 \<Rightarrow> int32 \<Rightarrow> int32 \<Rightarrow> int32" where
  "sha1_f t b c d =
     (if t < 20 then (b AND c) OR (NOT b AND d)
      else if t < 40 then b XOR c XOR d
      else if t < 60 then (b AND c) OR (b AND d) OR (c AND d)
      else b XOR c XOR d)"

definition sha1_K :: "nat \<Rightarrow> int32" where
  "sha1_K t =
     (if t < 20 then 0x5A827999 else if t < 40 then 0x6ED9EBA1
      else if t < 60 then 0x8F1BBCDC else 0xCA62C1D6)"

text \<open>The 32-bit words of a block, big-endian.\<close>

fun be32 :: "buffer \<Rightarrow> int32 list" where
  "be32 (b0 # b1 # b2 # b3 # rest) =
     (push_bit 24 (ucast b0) OR push_bit 16 (ucast b1) OR push_bit 8 (ucast b2) OR ucast b3)
       # be32 rest"
| "be32 _ = []"

text \<open>The message schedule, most recent word first.\<close>

function sha1_schedule :: "int32 list \<Rightarrow> int32 list" where
  "sha1_schedule ws =
     (if 80 \<le> length ws then ws
      else sha1_schedule (rotl32 1 (ws ! 2 XOR ws ! 7 XOR ws ! 13 XOR ws ! 15) # ws))"
  by pat_completeness auto
termination
  by (relation "measure (\<lambda>ws. 80 - length ws)") auto

declare sha1_schedule.simps [simp del]

text \<open>The eighty rounds, from round \<open>t\<close> on, over the words of the schedule.\<close>

fun sha1_rounds ::
  "nat \<Rightarrow> int32 list \<Rightarrow> int32 \<times> int32 \<times> int32 \<times> int32 \<times> int32
     \<Rightarrow> int32 \<times> int32 \<times> int32 \<times> int32 \<times> int32" where
  "sha1_rounds t [] s = s"
| "sha1_rounds t (w # ws) (a, b, c, d, e) =
     sha1_rounds (t + 1) ws
       (rotl32 5 a + sha1_f t b c d + e + sha1_K t + w, a, rotl32 30 b, c, d)"

fun sha1_add ::
  "int32 \<times> int32 \<times> int32 \<times> int32 \<times> int32 \<Rightarrow> int32 \<times> int32 \<times> int32 \<times> int32 \<times> int32
     \<Rightarrow> int32 \<times> int32 \<times> int32 \<times> int32 \<times> int32" where
  "sha1_add (h0, h1, h2, h3, h4) (a, b, c, d, e) = (h0 + a, h1 + b, h2 + c, h3 + d, h4 + e)"

definition sha1_compress ::
  "int32 \<times> int32 \<times> int32 \<times> int32 \<times> int32 \<Rightarrow> buffer
     \<Rightarrow> int32 \<times> int32 \<times> int32 \<times> int32 \<times> int32" where
  "sha1_compress h block = sha1_add h (sha1_rounds 0 (rev (sha1_schedule (rev (be32 block)))) h)"

function sha1_blocks ::
  "int32 \<times> int32 \<times> int32 \<times> int32 \<times> int32 \<Rightarrow> buffer
     \<Rightarrow> int32 \<times> int32 \<times> int32 \<times> int32 \<times> int32" where
  "sha1_blocks h m = (if m = [] then h else sha1_blocks (sha1_compress h (take 64 m)) (drop 64 m))"
  by pat_completeness auto
termination
  by (relation "measure (\<lambda>(h, m). length m)") auto

declare sha1_blocks.simps [simp del]

text \<open>Padding: a one bit, zero bits, and the length of the message in bits.\<close>

definition be64 :: "nat \<Rightarrow> buffer" where
  "be64 n = map (\<lambda>k. word_of_nat (n div 256 ^ k)) [7, 6, 5, 4, 3, 2, 1, 0]"

definition sha_pad :: "buffer \<Rightarrow> buffer" where
  "sha_pad m = m @ [0x80] @ replicate ((119 - length m mod 64) mod 64) 0 @ be64 (8 * length m)"

fun bytes32 :: "int32 \<Rightarrow> buffer" where
  "bytes32 w = [ucast (drop_bit 24 w), ucast (drop_bit 16 w), ucast (drop_bit 8 w), ucast w]"

fun sha1_out :: "int32 \<times> int32 \<times> int32 \<times> int32 \<times> int32 \<Rightarrow> buffer" where
  "sha1_out (h0, h1, h2, h3, h4) = bytes32 h0 @ bytes32 h1 @ bytes32 h2 @ bytes32 h3 @ bytes32 h4"

definition sha1 :: "buffer \<Rightarrow> buffer" where
  "sha1 m = sha1_out (sha1_blocks (0x67452301, 0xEFCDAB89, 0x98BADCFE, 0x10325476, 0xC3D2E1F0) (sha_pad m))"


subsection \<open>SHA-256 and SHA-512\<close>

type_synonym uint64 = "64 word"

definition rotr :: "nat \<Rightarrow> 'a::len word \<Rightarrow> 'a word" where
  "rotr n x = drop_bit n x OR push_bit (LENGTH('a) - n) x"

definition sha2_Ch :: "'a::len word \<Rightarrow> 'a word \<Rightarrow> 'a word \<Rightarrow> 'a word" where
  "sha2_Ch x y z = (x AND y) XOR (NOT x AND z)"

definition sha2_Maj :: "'a::len word \<Rightarrow> 'a word \<Rightarrow> 'a word \<Rightarrow> 'a word" where
  "sha2_Maj x y z = (x AND y) XOR (x AND z) XOR (y AND z)"

fun sha2_add :: "'a::len word list \<Rightarrow> 'a word list \<Rightarrow> 'a word list" where
  "sha2_add (x # xs) (y # ys) = (x + y) # sha2_add xs ys"
| "sha2_add _ _ = []"

definition sha256_K :: "int32 list" where
  "sha256_K =
     [0x428A2F98, 0x71374491, 0xB5C0FBCF, 0xE9B5DBA5, 0x3956C25B, 0x59F111F1,
      0x923F82A4, 0xAB1C5ED5, 0xD807AA98, 0x12835B01, 0x243185BE, 0x550C7DC3,
      0x72BE5D74, 0x80DEB1FE, 0x9BDC06A7, 0xC19BF174, 0xE49B69C1, 0xEFBE4786,
      0x0FC19DC6, 0x240CA1CC, 0x2DE92C6F, 0x4A7484AA, 0x5CB0A9DC, 0x76F988DA,
      0x983E5152, 0xA831C66D, 0xB00327C8, 0xBF597FC7, 0xC6E00BF3, 0xD5A79147,
      0x06CA6351, 0x14292967, 0x27B70A85, 0x2E1B2138, 0x4D2C6DFC, 0x53380D13,
      0x650A7354, 0x766A0ABB, 0x81C2C92E, 0x92722C85, 0xA2BFE8A1, 0xA81A664B,
      0xC24B8B70, 0xC76C51A3, 0xD192E819, 0xD6990624, 0xF40E3585, 0x106AA070,
      0x19A4C116, 0x1E376C08, 0x2748774C, 0x34B0BCB5, 0x391C0CB3, 0x4ED8AA4A,
      0x5B9CCA4F, 0x682E6FF3, 0x748F82EE, 0x78A5636F, 0x84C87814, 0x8CC70208,
      0x90BEFFFA, 0xA4506CEB, 0xBEF9A3F7, 0xC67178F2]"

definition sha256_H0 :: "int32 list" where
  "sha256_H0 =
     [0x6A09E667, 0xBB67AE85, 0x3C6EF372, 0xA54FF53A,
      0x510E527F, 0x9B05688C, 0x1F83D9AB, 0x5BE0CD19]"

definition sha256_s0 :: "int32 \<Rightarrow> int32" where
  "sha256_s0 x = rotr 7 x XOR rotr 18 x XOR drop_bit 3 x"

definition sha256_s1 :: "int32 \<Rightarrow> int32" where
  "sha256_s1 x = rotr 17 x XOR rotr 19 x XOR drop_bit 10 x"

definition sha256_S0 :: "int32 \<Rightarrow> int32" where
  "sha256_S0 x = rotr 2 x XOR rotr 13 x XOR rotr 22 x"

definition sha256_S1 :: "int32 \<Rightarrow> int32" where
  "sha256_S1 x = rotr 6 x XOR rotr 11 x XOR rotr 25 x"

function sha256_schedule :: "int32 list \<Rightarrow> int32 list" where
  "sha256_schedule ws =
     (if 64 \<le> length ws then ws
      else sha256_schedule
             ((sha256_s1 (ws ! 1) + ws ! 6 + sha256_s0 (ws ! 14) + ws ! 15) # ws))"
  by pat_completeness auto
termination
  by (relation "measure (\<lambda>ws. 64 - length ws)") auto

declare sha256_schedule.simps [simp del]

fun sha256_rounds :: "int32 list \<Rightarrow> int32 list \<Rightarrow> int32 list \<Rightarrow> int32 list" where
  "sha256_rounds (k # ks) (w # ws) [a, b, c, d, e, f, g, h] =
     sha256_rounds ks ws
       [(h + sha256_S1 e + sha2_Ch e f g + k + w) + (sha256_S0 a + sha2_Maj a b c),
        a, b, c, d + (h + sha256_S1 e + sha2_Ch e f g + k + w), e, f, g]"
| "sha256_rounds _ _ s = s"

definition sha256_compress :: "int32 list \<Rightarrow> buffer \<Rightarrow> int32 list" where
  "sha256_compress h block =
     sha2_add h (sha256_rounds sha256_K (rev (sha256_schedule (rev (be32 block)))) h)"

function sha256_blocks :: "int32 list \<Rightarrow> buffer \<Rightarrow> int32 list" where
  "sha256_blocks h m =
     (if m = [] then h else sha256_blocks (sha256_compress h (take 64 m)) (drop 64 m))"
  by pat_completeness auto
termination
  by (relation "measure (\<lambda>(h, m). length m)") auto

declare sha256_blocks.simps [simp del]

definition sha256 :: "buffer \<Rightarrow> buffer" where
  "sha256 m = concat (map bytes32 (sha256_blocks sha256_H0 (sha_pad m)))"

definition sha512_K :: "uint64 list" where
  "sha512_K =
     [0x428A2F98D728AE22, 0x7137449123EF65CD, 0xB5C0FBCFEC4D3B2F,
      0xE9B5DBA58189DBBC, 0x3956C25BF348B538, 0x59F111F1B605D019,
      0x923F82A4AF194F9B, 0xAB1C5ED5DA6D8118, 0xD807AA98A3030242,
      0x12835B0145706FBE, 0x243185BE4EE4B28C, 0x550C7DC3D5FFB4E2,
      0x72BE5D74F27B896F, 0x80DEB1FE3B1696B1, 0x9BDC06A725C71235,
      0xC19BF174CF692694, 0xE49B69C19EF14AD2, 0xEFBE4786384F25E3,
      0x0FC19DC68B8CD5B5, 0x240CA1CC77AC9C65, 0x2DE92C6F592B0275,
      0x4A7484AA6EA6E483, 0x5CB0A9DCBD41FBD4, 0x76F988DA831153B5,
      0x983E5152EE66DFAB, 0xA831C66D2DB43210, 0xB00327C898FB213F,
      0xBF597FC7BEEF0EE4, 0xC6E00BF33DA88FC2, 0xD5A79147930AA725,
      0x06CA6351E003826F, 0x142929670A0E6E70, 0x27B70A8546D22FFC,
      0x2E1B21385C26C926, 0x4D2C6DFC5AC42AED, 0x53380D139D95B3DF,
      0x650A73548BAF63DE, 0x766A0ABB3C77B2A8, 0x81C2C92E47EDAEE6,
      0x92722C851482353B, 0xA2BFE8A14CF10364, 0xA81A664BBC423001,
      0xC24B8B70D0F89791, 0xC76C51A30654BE30, 0xD192E819D6EF5218,
      0xD69906245565A910, 0xF40E35855771202A, 0x106AA07032BBD1B8,
      0x19A4C116B8D2D0C8, 0x1E376C085141AB53, 0x2748774CDF8EEB99,
      0x34B0BCB5E19B48A8, 0x391C0CB3C5C95A63, 0x4ED8AA4AE3418ACB,
      0x5B9CCA4F7763E373, 0x682E6FF3D6B2B8A3, 0x748F82EE5DEFB2FC,
      0x78A5636F43172F60, 0x84C87814A1F0AB72, 0x8CC702081A6439EC,
      0x90BEFFFA23631E28, 0xA4506CEBDE82BDE9, 0xBEF9A3F7B2C67915,
      0xC67178F2E372532B, 0xCA273ECEEA26619C, 0xD186B8C721C0C207,
      0xEADA7DD6CDE0EB1E, 0xF57D4F7FEE6ED178, 0x06F067AA72176FBA,
      0x0A637DC5A2C898A6, 0x113F9804BEF90DAE, 0x1B710B35131C471B,
      0x28DB77F523047D84, 0x32CAAB7B40C72493, 0x3C9EBE0A15C9BEBC,
      0x431D67C49C100D4C, 0x4CC5D4BECB3E42B6, 0x597F299CFC657E2A,
      0x5FCB6FAB3AD6FAEC, 0x6C44198C4A475817]"

definition sha512_H0 :: "uint64 list" where
  "sha512_H0 =
     [0x6A09E667F3BCC908, 0xBB67AE8584CAA73B, 0x3C6EF372FE94F82B,
      0xA54FF53A5F1D36F1, 0x510E527FADE682D1, 0x9B05688C2B3E6C1F,
      0x1F83D9ABFB41BD6B, 0x5BE0CD19137E2179]"

definition sha512_s0 :: "uint64 \<Rightarrow> uint64" where
  "sha512_s0 x = rotr 1 x XOR rotr 8 x XOR drop_bit 7 x"

definition sha512_s1 :: "uint64 \<Rightarrow> uint64" where
  "sha512_s1 x = rotr 19 x XOR rotr 61 x XOR drop_bit 6 x"

definition sha512_S0 :: "uint64 \<Rightarrow> uint64" where
  "sha512_S0 x = rotr 28 x XOR rotr 34 x XOR rotr 39 x"

definition sha512_S1 :: "uint64 \<Rightarrow> uint64" where
  "sha512_S1 x = rotr 14 x XOR rotr 18 x XOR rotr 41 x"

fun be64w :: "buffer \<Rightarrow> uint64 list" where
  "be64w (b0 # b1 # b2 # b3 # b4 # b5 # b6 # b7 # rest) =
     (push_bit 56 (ucast b0) OR push_bit 48 (ucast b1) OR push_bit 40 (ucast b2)
      OR push_bit 32 (ucast b3) OR push_bit 24 (ucast b4) OR push_bit 16 (ucast b5)
      OR push_bit 8 (ucast b6) OR ucast b7) # be64w rest"
| "be64w _ = []"

function sha512_schedule :: "uint64 list \<Rightarrow> uint64 list" where
  "sha512_schedule ws =
     (if 80 \<le> length ws then ws
      else sha512_schedule
             ((sha512_s1 (ws ! 1) + ws ! 6 + sha512_s0 (ws ! 14) + ws ! 15) # ws))"
  by pat_completeness auto
termination
  by (relation "measure (\<lambda>ws. 80 - length ws)") auto

declare sha512_schedule.simps [simp del]

fun sha512_rounds :: "uint64 list \<Rightarrow> uint64 list \<Rightarrow> uint64 list \<Rightarrow> uint64 list" where
  "sha512_rounds (k # ks) (w # ws) [a, b, c, d, e, f, g, h] =
     sha512_rounds ks ws
       [(h + sha512_S1 e + sha2_Ch e f g + k + w) + (sha512_S0 a + sha2_Maj a b c),
        a, b, c, d + (h + sha512_S1 e + sha2_Ch e f g + k + w), e, f, g]"
| "sha512_rounds _ _ s = s"

definition sha512_compress :: "uint64 list \<Rightarrow> buffer \<Rightarrow> uint64 list" where
  "sha512_compress h block =
     sha2_add h (sha512_rounds sha512_K (rev (sha512_schedule (rev (be64w block)))) h)"

function sha512_blocks :: "uint64 list \<Rightarrow> buffer \<Rightarrow> uint64 list" where
  "sha512_blocks h m =
     (if m = [] then h else sha512_blocks (sha512_compress h (take 128 m)) (drop 128 m))"
  by pat_completeness auto
termination
  by (relation "measure (\<lambda>(h, m). length m)") auto

declare sha512_blocks.simps [simp del]

definition be128 :: "nat \<Rightarrow> buffer" where
  "be128 n =
     map (\<lambda>k. word_of_nat (n div 256 ^ k)) [15, 14, 13, 12, 11, 10, 9, 8, 7, 6, 5, 4, 3, 2, 1, 0]"

definition sha512_pad :: "buffer \<Rightarrow> buffer" where
  "sha512_pad m =
     m @ [0x80] @ replicate ((239 - length m mod 128) mod 128) 0 @ be128 (8 * length m)"

fun bytes64 :: "uint64 \<Rightarrow> buffer" where
  "bytes64 w =
     [ucast (drop_bit 56 w), ucast (drop_bit 48 w), ucast (drop_bit 40 w), ucast (drop_bit 32 w),
      ucast (drop_bit 24 w), ucast (drop_bit 16 w), ucast (drop_bit 8 w), ucast w]"

definition sha512 :: "buffer \<Rightarrow> buffer" where
  "sha512 m = concat (map bytes64 (sha512_blocks sha512_H0 (sha512_pad m)))"

subsection \<open>HMAC\<close>

text \<open>
  A key longer than a block of the hash is hashed first; the key is then filled with zero
  bytes to the length of a block.
\<close>

definition hmac_key :: "(buffer \<Rightarrow> buffer) \<Rightarrow> nat \<Rightarrow> buffer \<Rightarrow> buffer" where
  "hmac_key h blockSize key =
     (let k = (if blockSize < length key then h key else key)
      in k @ replicate (blockSize - length k) 0)"

definition hmacWith :: "(buffer \<Rightarrow> buffer) \<Rightarrow> nat \<Rightarrow> buffer \<Rightarrow> buffer \<Rightarrow> buffer" where
  "hmacWith h blockSize key msg =
     h (map (\<lambda>b. b XOR 0x5C) (hmac_key h blockSize key)
          @ h (map (\<lambda>b. b XOR 0x36) (hmac_key h blockSize key) @ msg))"


text \<open>
  The digest for a hash name. Only the names in the range of \<open>algoMap\<close> are ever passed
  by the program; for any other name the model returns the empty digest.
\<close>

definition nodeHmac :: hmac_fn where
  "nodeHmac name key msg =
     (if name = ''sha1'' then hmacWith sha1 64 key msg
      else if name = ''sha256'' then hmacWith sha256 64 key msg
      else if name = ''sha512'' then hmacWith sha512 128 key msg
      else [])"

section \<open>Notions of the specification\<close>

text \<open>The value of a byte sequence read as a big-endian number.\<close>

definition beValue :: "buffer \<Rightarrow> int" where
  "beValue bs = foldl (\<lambda>acc b. acc * 256 + uint b) 0 bs"

text \<open>Decimal digit characters, and the number that a string of them denotes.\<close>

definition isDigit :: "char \<Rightarrow> bool" where
  "isDigit c = (48 \<le> (of_char c :: nat) \<and> (of_char c :: nat) \<le> 57)"

definition decimalValue :: "string \<Rightarrow> nat" where
  "decimalValue s = foldl (\<lambda>acc c. acc * 10 + (of_char c - 48)) 0 s"

text \<open>
  The characters of a Base32 text: the thirty-two symbols of the alphabet, and the
  lower-case letters, since decoding does not distinguish case.
\<close>

definition isBase32Letter :: "char \<Rightarrow> bool" where
  "isBase32Letter c \<longleftrightarrow>
     c \<in> set ''ABCDEFGHIJKLMNOPQRSTUVWXYZ234567'' \<or> c \<in> set ''abcdefghijklmnopqrstuvwxyz''"

text \<open>
  \<open>Number.MAX_SAFE_INTEGER\<close>: the integers up to it are doubles, and the arithmetic of
  doubles is exact as long as its results stay in this range.
\<close>

definition maxSafeInteger :: int where
  "maxSafeInteger = 2 ^ 53 - 1"

section \<open>Auxiliary notions of the proofs\<close>

text \<open>
  The loops of the encoder without the check of the length of the string: what the encoder
  computes when its output stays within the longest string.
\<close>

function encWhile :: "nat \<Rightarrow> int32 \<Rightarrow> string \<Rightarrow> nat \<times> string" where
  "encWhile bits v output =
     (if bits \<ge> 5
      then encWhile (bits - 5) v
             (output @ [BASE32_CHARS ! unat (drop_bit (bits - 5) v AND 31)])
      else (bits, output))"
  by pat_completeness auto
termination
  by (relation "measure (\<lambda>(bits, v, output). bits)") auto

declare encWhile.simps [simp del]

fun encFor :: "nat \<Rightarrow> int32 \<Rightarrow> string \<Rightarrow> buffer \<Rightarrow> nat \<times> int32 \<times> string" where
  "encFor bits v output [] = (bits, v, output)"
| "encFor bits v output (b # bs) =
     (let v' = push_bit 8 v OR ucast b;
          (bits', output') = encWhile (bits + 8) v' output
      in encFor bits' v' output' bs)"

definition encoded :: "buffer \<Rightarrow> string" where
  "encoded buf =
     (let (bits, v, output) = encFor 0 0 [] buf
      in if bits > 0
         then output @ [BASE32_CHARS ! unat (push_bit (5 - bits) v AND 31)]
         else output)"

text \<open>
  The decoding loop on a text of characters, with the emitted bytes as a list, returning
  its whole state: the number of pending bits, the accumulator and the bytes emitted so
  far.
\<close>

fun dec_steps :: "nat \<Rightarrow> int32 \<Rightarrow> buffer \<Rightarrow> string \<Rightarrow> error + (nat \<times> int32 \<times> buffer)" where
  "dec_steps bits v out [] = Inr (bits, v, out)"
| "dec_steps bits v out (c # rest) =
     (let charIndex = indexOf BASE32_CHARS c
      in if charIndex = - 1 then Inl (InvalidBase32Character (of_char c))
         else
           (let v' = push_bit 5 v OR word_of_int charIndex;
                bits' = bits + 5
            in if bits' \<ge> 8
               then dec_steps (bits' - 8) v'
                      (out @ [ucast (drop_bit (bits' - 8) v' AND 255)]) rest
               else dec_steps bits' v' out rest))"

text \<open>
  Names for the steps of the two loops: the accumulator of the encoder after a byte, the
  character it emits at a shift, the character of the final flush, the accumulator of the
  decoder after a character, and the byte it emits at a shift.
\<close>

definition eacc :: "int32 \<Rightarrow> byte \<Rightarrow> int32" where
  "eacc ev b = push_bit 8 ev OR ucast b"

definition echr :: "nat \<Rightarrow> int32 \<Rightarrow> char" where
  "echr s w = BASE32_CHARS ! unat (drop_bit s w AND 31)"

definition fchr :: "nat \<Rightarrow> int32 \<Rightarrow> char" where
  "fchr e ev = BASE32_CHARS ! unat (push_bit (5 - e) ev AND 31)"

definition dacc :: "int32 \<Rightarrow> int32 \<Rightarrow> int32" where
  "dacc dv x = push_bit 5 dv OR take_bit 5 x"

definition dbyte :: "nat \<Rightarrow> int32 \<Rightarrow> byte" where
  "dbyte s dv = ucast (take_bit 8 (drop_bit s dv))"

text \<open>
  The bits that the decoder still holds, followed by the \<open>e\<close> bits that the encoder still
  holds: together one byte.
\<close>

definition joined :: "nat \<Rightarrow> int32 \<Rightarrow> int32 \<Rightarrow> byte" where
  "joined e dv ev = ucast (push_bit e (take_bit (8 - e) dv) OR take_bit e ev)"

text \<open>
  The invariant that links the two loops: when the encoder has read the bytes \<open>bs\<close>, holds
  \<open>e\<close> pending bits in \<open>ev\<close> and has written \<open>eout\<close>, the decoder run on \<open>eout\<close> has
  emitted \<open>bs\<close> but for its last byte, which is split between the two accumulators.
\<close>

definition codec_inv :: "buffer \<Rightarrow> nat \<Rightarrow> int32 \<Rightarrow> string \<Rightarrow> bool" where
  "codec_inv bs e ev eout \<longleftrightarrow>
     e < 5 \<and>
     (\<exists>dv. if e = 0 then dec_steps 0 0 [] eout = Inr (0, dv, bs)
           else bs \<noteq> [] \<and> dec_steps 0 0 [] eout = Inr (8 - e, dv, butlast bs)
                \<and> last bs = joined e dv ev)"

text \<open>
  The identity on 32-bit and on 64-bit words, used to keep the numerals reduced modulo
  \<open>2^32\<close> and \<open>2^64\<close> while a hash is evaluated.
\<close>

definition norm32 :: "int32 \<Rightarrow> int32" where
  "norm32 x = x"

definition norm64 :: "uint64 \<Rightarrow> uint64" where
  "norm64 x = x"

section \<open>Properties\<close>

subsection \<open>The digests of the HMAC collaborator\<close>

lemma sha1_length: "length (sha1 m) = 20"
proof -
  obtain h0 h1 h2 h3 h4 where
    "sha1_blocks (0x67452301, 0xEFCDAB89, 0x98BADCFE, 0x10325476, 0xC3D2E1F0) (sha_pad m)
       = (h0, h1, h2, h3, h4)"
    by (rule prod_cases5)
  then show ?thesis by (simp add: sha1_def)
qed

lemma sha2_add_length: "length (sha2_add xs ys) = min (length xs) (length ys)"
  by (induction xs ys rule: sha2_add.induct) simp_all

lemma length_8_cases:
  assumes "length s = 8"
  obtains a b c d e f g h where "s = [a, b, c, d, e, f, g, h]"
  using assms by (auto simp: length_Suc_conv eval_nat_numeral)

lemma sha256_rounds_length: "length s = 8 \<Longrightarrow> length (sha256_rounds ks ws s) = 8"
proof (induction ks arbitrary: ws s)
  case Nil
  then show ?case by simp
next
  case (Cons k ks)
  from Cons.prems obtain a b c d e f g h where s: "s = [a, b, c, d, e, f, g, h]"
    by (rule length_8_cases)
  show ?case
  proof (cases ws)
    case Nil
    with Cons.prems show ?thesis by simp
  next
    case (Cons w ws')
    with s Cons.IH show ?thesis by simp
  qed
qed

lemma sha256_blocks_length: "length h = 8 \<Longrightarrow> length (sha256_blocks h m) = 8"
proof (induction h m rule: sha256_blocks.induct)
  case (1 h m)
  show ?case
  proof (cases "m = []")
    case True
    with 1 show ?thesis by (subst sha256_blocks.simps) simp
  next
    case False
    have "length (sha256_compress h (take 64 m)) = 8"
      using 1(2) by (simp add: sha256_compress_def sha2_add_length sha256_rounds_length)
    from 1(1) [OF False this] False show ?thesis
      by (subst sha256_blocks.simps) simp
  qed
qed

lemma concat_bytes32_length: "length (concat (map bytes32 hs)) = 4 * length hs"
  by (induction hs) simp_all

lemma sha256_length: "length (sha256 m) = 32"
  by (simp add: sha256_def concat_bytes32_length sha256_blocks_length sha256_H0_def)

lemma sha512_rounds_length: "length s = 8 \<Longrightarrow> length (sha512_rounds ks ws s) = 8"
proof (induction ks arbitrary: ws s)
  case Nil
  then show ?case by simp
next
  case (Cons k ks)
  from Cons.prems obtain a b c d e f g h where s: "s = [a, b, c, d, e, f, g, h]"
    by (rule length_8_cases)
  show ?case
  proof (cases ws)
    case Nil
    with Cons.prems show ?thesis by simp
  next
    case (Cons w ws')
    with s Cons.IH show ?thesis by simp
  qed
qed

lemma sha512_blocks_length: "length h = 8 \<Longrightarrow> length (sha512_blocks h m) = 8"
proof (induction h m rule: sha512_blocks.induct)
  case (1 h m)
  show ?case
  proof (cases "m = []")
    case True
    with 1 show ?thesis by (subst sha512_blocks.simps) simp
  next
    case False
    have "length (sha512_compress h (take 128 m)) = 8"
      using 1(2) by (simp add: sha512_compress_def sha2_add_length sha512_rounds_length)
    from 1(1) [OF False this] False show ?thesis
      by (subst sha512_blocks.simps) simp
  qed
qed

lemma concat_bytes64_length: "length (concat (map bytes64 hs)) = 8 * length hs"
  by (induction hs) simp_all

lemma sha512_length: "length (sha512 m) = 64"
  by (simp add: sha512_def concat_bytes64_length sha512_blocks_length sha512_H0_def)

lemma nodeHmac_length:
  "name \<in> {''sha1'', ''sha256'', ''sha512''} \<Longrightarrow> length (nodeHmac name key msg) \<in> {20, 32, 64}"
  by (auto simp: nodeHmac_def hmacWith_def sha1_length sha256_length sha512_length)

subsection \<open>Doubles\<close>

text \<open>
  Rounding is exact on the integers below \<open>2^53\<close> in absolute value, and the floor of a
  rounded quotient of two such integers is their integer quotient; a value of \<open>2^1024\<close> or
  more overflows.
\<close>

lemma roundHalfEven_of_int: "roundHalfEven (of_int n) = n"
  by (simp add: roundHalfEven_def)

lemma roundHalfEven_ge:
  assumes "of_int n \<le> r"
  shows "n \<le> roundHalfEven r"
proof -
  have "n \<le> \<lfloor>r\<rfloor>" using assms by (simp add: le_floor_iff)
  then show ?thesis by (auto simp: roundHalfEven_def Let_def)
qed

lemma roundHalfEven_le:
  assumes "r \<le> of_int n"
  shows "roundHalfEven r \<le> n"
proof (cases "r = of_int n")
  case True
  then show ?thesis by (simp add: roundHalfEven_of_int)
next
  case False
  with assms have "r < of_int n" by simp
  then have "\<lfloor>r\<rfloor> < n" by (simp add: floor_less_iff)
  then show ?thesis by (auto simp: roundHalfEven_def Let_def)
qed

lemma roundHalfEven_gt:
  assumes "of_int k + 1 / 2 < r"
  shows "k < roundHalfEven r"
proof -
  have "k \<le> \<lfloor>r\<rfloor>" using assms by (simp add: le_floor_iff)
  then consider "k < \<lfloor>r\<rfloor>" | "k = \<lfloor>r\<rfloor>" by linarith
  then show ?thesis
  proof cases
    case 1
    then show ?thesis by (auto simp: roundHalfEven_def Let_def)
  next
    case 2
    with assms have "1 / 2 < r - of_int \<lfloor>r\<rfloor>" by simp
    with 2 show ?thesis by (auto simp: roundHalfEven_def Let_def)
  qed
qed

lemma roundHalfEven_lt:
  assumes "r < of_int n - 1 / 2"
  shows "roundHalfEven r < n"
proof -
  have "r < of_int n" using assms by simp
  then have "\<lfloor>r\<rfloor> < n" by (simp add: floor_less_iff)
  then consider "\<lfloor>r\<rfloor> + 1 < n" | "\<lfloor>r\<rfloor> + 1 = n" by linarith
  then show ?thesis
  proof cases
    case 1
    then show ?thesis by (auto simp: roundHalfEven_def Let_def)
  next
    case 2
    then have "of_int n = of_int \<lfloor>r\<rfloor> + (1 :: rat)" by (simp add: 2 [symmetric])
    with assms have "r - of_int \<lfloor>r\<rfloor> < 1 / 2" by simp
    with 2 show ?thesis by (auto simp: roundHalfEven_def Let_def)
  qed
qed

lemma binade_le:
  assumes "x \<noteq> 0"
  shows "2 powi (binade x) \<le> \<bar>x\<bar>"
proof -
  obtain a b where q: "quotient_of \<bar>x\<bar> = (a, b)" by (cases "quotient_of \<bar>x\<bar>") auto
  then have b: "0 < b" and x: "\<bar>x\<bar> = of_int a / of_int b"
    using quotient_of_denom_pos [OF q] quotient_of_div [OF q] by auto
  have "0 < \<bar>x\<bar>" using assms by simp
  then have a: "0 < a" using b x by (simp add: zero_less_divide_iff)
  define e where "e = bitlen a - bitlen b"
  show ?thesis
  proof (cases "2 powi e \<le> \<bar>x\<bar>")
    case True
    then show ?thesis by (simp add: binade_def q e_def)
  next
    case False
    have la: "(2 :: rat) ^ nat (bitlen a - 1) \<le> of_int a"
      using bitlen_bounds [OF a] by (metis of_int_le_iff of_int_numeral of_int_power)
    have lb: "of_int b < (2 :: rat) ^ nat (bitlen b)"
      using bitlen_bounds [OF b] by (metis of_int_less_iff of_int_numeral of_int_power)
    have pa: "1 \<le> bitlen a" using a bitlen_eq_zero_iff [of a] bitlen_nonneg [of a] by linarith
    have pb: "0 \<le> bitlen b" by (rule bitlen_nonneg)
    define m where "m = nat (bitlen a - 1)"
    define n where "n = nat (bitlen b)"
    have em: "e - 1 = int m - int n"
      using pa pb by (simp add: e_def m_def n_def)
    have "(2 :: rat) powi (e - 1) = 2 powi int m / 2 powi int n"
      unfolding em by (rule power_int_diff) simp
    also have "\<dots> = 2 ^ nat (bitlen a - 1) / 2 ^ nat (bitlen b)"
      by (simp only: power_int_of_nat m_def n_def)
    also have "\<dots> \<le> of_int a / 2 ^ nat (bitlen b)"
      using la by (simp add: divide_right_mono)
    also have "\<dots> \<le> of_int a / of_int b"
      using lb a b by (intro divide_left_mono) (simp_all)
    finally have "(2 :: rat) powi (e - 1) \<le> \<bar>x\<bar>"
      by (simp only: x)
    moreover have "binade x = e - 1"
      using False by (simp add: binade_def q e_def)
    ultimately show ?thesis by simp
  qed
qed


lemma pw_less_exp:
  assumes "(2 :: rat) powi a \<le> x" and "x < 2 powi b"
  shows "a < b"
proof (rule ccontr)
  assume "\<not> a < b"
  then have "(2 :: rat) powi b \<le> 2 powi a"
    by (intro power_int_increasing) simp_all
  with assms show False by simp
qed

lemma pw_neg: "k \<le> 0 \<Longrightarrow> (2 :: rat) powi k = 1 / 2 ^ nat (- k)"
  by (simp add: power_int_def field_simps)

lemma pw_53: "(2 :: rat) powi 53 = 2 ^ 53"
  by (simp only: power_int_numeral)

text \<open>The pieces of \<open>fl\<close> at a value other than 0.\<close>

lemma fl_nonzero:
  assumes "x \<noteq> 0"
  shows "fl x =
     (if (2 :: rat) powi 1024 \<le> of_int (roundHalfEven (\<bar>x\<bar> / 2 powi (max (binade x) (- 1022) - 52)))
          * (2 :: rat) powi (max (binade x) (- 1022) - 52)
      then (if 0 < x then PosInf else NegInf)
      else Finite (sgn x * (of_int (roundHalfEven (\<bar>x\<bar> / 2 powi (max (binade x) (- 1022) - 52)))
          * 2 powi (max (binade x) (- 1022) - 52))))"
  using assms unfolding fl_def Let_def by (simp only: if_False)

lemma small_exponent:
  assumes "x \<noteq> 0" and "\<bar>x\<bar> < 2 ^ 53"
  shows "max (binade x) (- 1022) - 52 \<le> 0"
proof -
  have "binade x < 53"
    using binade_le [OF assms(1)] assms(2) by (intro pw_less_exp [of _ "\<bar>x\<bar>"]) (simp_all only: pw_53)
  then show ?thesis by simp
qed

lemma fl_int:
  assumes "\<bar>n\<bar> < 2 ^ 53"
  shows "fl (of_int n) = Finite (of_int n)"
proof (cases "n = 0")
  case True
  then show ?thesis by (simp add: fl_def)
next
  case False
  define x :: rat where "x = of_int n"
  have x0: "x \<noteq> 0" using False by (simp add: x_def)
  have ax: "\<bar>x\<bar> = of_int \<bar>n\<bar>" by (simp add: x_def)
  have "of_int \<bar>n\<bar> < (of_int (2 ^ 53) :: rat)"
    using assms by (simp only: of_int_less_iff)
  then have lt: "\<bar>x\<bar> < 2 ^ 53" by (simp add: ax)
  define k where "k = max (binade x) (- 1022) - 52"
  define N where "N = nat (- k)"
  have k: "k \<le> 0" unfolding k_def using x0 lt by (rule small_exponent)
  have ulp: "(2 :: rat) powi k = 1 / 2 ^ N"
    unfolding N_def using k by (rule pw_neg)
  have "\<bar>x\<bar> / 2 powi k = of_int (\<bar>n\<bar> * 2 ^ N)"
    by (simp add: ulp ax)
  then have m: "roundHalfEven (\<bar>x\<bar> / 2 powi k) = \<bar>n\<bar> * 2 ^ N"
    by (simp only: roundHalfEven_of_int)
  have y: "of_int (roundHalfEven (\<bar>x\<bar> / 2 powi k)) * 2 powi k = \<bar>x\<bar>"
    by (simp only: m) (simp add: ulp ax)
  have "\<bar>x\<bar> < 2 powi 1024"
  proof -
    have "(2 :: rat) powi 53 \<le> 2 powi 1024"
      by (intro power_int_increasing) simp_all
    with lt show ?thesis by (simp only: pw_53)
  qed
  then have fin: "\<not> 2 powi 1024 \<le> \<bar>x\<bar>" by simp
  have "fl x = Finite (sgn x * \<bar>x\<bar>)"
    by (simp only: fl_nonzero [OF x0] k_def [symmetric] y fin if_False)
  then show ?thesis
    unfolding sgn_mult_abs x_def .
qed


lemma fl_floor_div:
  assumes a: "\<bar>a\<bar> < 2 ^ 53" and b0: "0 < b" and b: "b < 2 ^ 53"
  shows "\<exists>y. fl (of_int a / of_int b) = Finite y \<and> \<lfloor>y\<rfloor> = a div b"
proof (cases "a = 0")
  case True
  then show ?thesis by (simp add: fl_def)
next
  case False
  define x :: rat where "x = of_int a / of_int b"
  define q where "q = a div b"
  have x0: "x \<noteq> 0" using False b0 by (simp add: x_def)
  have bq: "(0 :: rat) < of_int b" using b0 by simp
  have b1: "(1 :: rat) \<le> of_int b" using b0 by (simp add: int_one_le_iff_zero_less)
  have ax: "\<bar>x\<bar> = of_int \<bar>a\<bar> / of_int b"
    using b0 by (simp add: x_def)
  have "\<bar>x\<bar> \<le> of_int \<bar>a\<bar> / 1"
    unfolding ax using b1 by (intro divide_left_mono) simp_all
  also have "\<dots> = of_int \<bar>a\<bar>" by simp
  also have "of_int \<bar>a\<bar> < (of_int (2 ^ 53) :: rat)"
    using a by (simp only: of_int_less_iff)
  finally have lt: "\<bar>x\<bar> < 2 ^ 53" by simp
  define k where "k = max (binade x) (- 1022) - 52"
  define N where "N = nat (- k)"
  define u :: rat where "u = 2 ^ N"
  have k: "k \<le> 0" unfolding k_def using x0 lt by (rule small_exponent)
  have ulp: "(2 :: rat) powi k = 1 / u"
    unfolding N_def u_def using k by (rule pw_neg)
  have u0: "0 < u" by (simp add: u_def)
  have ui: "(of_int (z * 2 ^ N) :: rat) = of_int z * u" for z by (simp add: u_def)
  text \<open>Half a unit in the last place is less than \<open>1 / b\<close>.\<close>
  have half: "of_int b < 2 * u"
  proof (cases "- 1022 \<le> binade x")
    case True
    then have "k = binade x - 52" by (simp add: k_def)
    then have bk: "binade x = k + 52" by simp
    have "(2 :: rat) powi binade x = 2 powi k * 2 powi 52"
      unfolding bk by (rule power_int_add) simp
    also have "\<dots> = 2 ^ 52 / u"
      by (simp only: ulp power_int_numeral) simp
    finally have "2 ^ 52 / u \<le> \<bar>x\<bar>"
      using binade_le [OF x0] by simp
    then have "2 ^ 52 * of_int b \<le> of_int \<bar>a\<bar> * u"
      using u0 bq by (simp add: ax field_simps)
    also have "\<dots> < 2 ^ 53 * u"
      using \<open>of_int \<bar>a\<bar> < (of_int (2 ^ 53) :: rat)\<close> u0 by simp
    finally show ?thesis by simp
  next
    case False
    then have "k = - 1074" by (simp add: k_def)
    then have "N = 1074" by (simp add: N_def)
    then have "(2 :: rat) ^ 53 \<le> u"
      unfolding u_def by (simp only:) (rule power_increasing, simp_all)
    moreover have "of_int b < (of_int (2 ^ 53) :: rat)"
      using b by (simp only: of_int_less_iff)
    ultimately show ?thesis using u0 by simp
  qed
  have qx: "of_int q \<le> x" and xq: "x + 1 / of_int b \<le> of_int q + 1"
  proof -
    have d: "a = q * b + a mod b" by (simp add: q_def)
    have "a mod b < b" using b0 by (rule pos_mod_bound)
    then have m: "0 \<le> a mod b" "a mod b + 1 \<le> b"
      using b0 by (simp, linarith)
    have "x = of_int q + of_int (a mod b) / of_int b"
      unfolding x_def by (subst d) (use b0 in \<open>simp add: field_simps\<close>)
    moreover have "(0 :: rat) \<le> of_int (a mod b) / of_int b"
      using m(1) b0 by simp
    moreover have "of_int (a mod b) / of_int b + 1 / of_int b \<le> (1 :: rat)"
    proof -
      have "(of_int (a mod b + 1) :: rat) \<le> of_int b" using m(2) by (simp only: of_int_le_iff)
      then show ?thesis using bq by (simp add: field_simps)
    qed
    ultimately show "of_int q \<le> x" "x + 1 / of_int b \<le> of_int q + 1" by simp_all
  qed
  have gap: "x * u + 1 / 2 < (of_int q + 1) * u"
  proof -
    have h: "1 / 2 < u / of_int b" using half bq by (simp add: field_simps)
    have "x * u + 1 / 2 < x * u + u / of_int b" using h by simp
    also have "\<dots> = (x + 1 / of_int b) * u" by (simp add: algebra_simps)
    also have "\<dots> \<le> (of_int q + 1) * u"
      using xq u0 by (simp only: mult_le_cancel_right_pos)
    finally show ?thesis .
  qed
  define m where "m = roundHalfEven (\<bar>x\<bar> / 2 powi k)"
  have arg: "\<bar>x\<bar> / 2 powi k = \<bar>x\<bar> * u" by (simp add: ulp)
  have val: "of_int m * 2 powi k = of_int m / u" by (simp add: ulp)
  have big: "(2 :: rat) ^ 53 < 2 powi 1024"
  proof -
    have "(2 :: rat) powi 53 < 2 powi 1024"
      by (intro power_int_strict_increasing) simp_all
    then show ?thesis by (simp only: pw_53)
  qed
  consider "0 < x" | "x < 0" using x0 by linarith
  then show ?thesis
  proof cases
    case 1
    then have abs: "\<bar>x\<bar> = x" and sg: "sgn x = 1" by simp_all
    have "of_int q * u \<le> \<bar>x\<bar> * u"
      using qx u0 by (simp add: abs)
    then have "of_int (q * 2 ^ N) \<le> \<bar>x\<bar> * u"
      by (simp only: ui)
    then have lo: "q * 2 ^ N \<le> m"
      unfolding m_def arg by (rule roundHalfEven_ge)
    have "\<bar>x\<bar> * u < of_int (q + 1) * u - 1 / 2"
      using gap by (simp add: abs)
    then have "\<bar>x\<bar> * u < of_int ((q + 1) * 2 ^ N) - 1 / 2"
      by (simp only: ui)
    then have hi: "m < (q + 1) * 2 ^ N"
      unfolding m_def arg by (rule roundHalfEven_lt)
    have "of_int (q * 2 ^ N) \<le> (of_int m :: rat)" using lo by (simp only: of_int_le_iff)
    then have "of_int q * u \<le> of_int m" by (simp only: ui)
    then have ylo: "of_int q \<le> of_int m / u"
      using u0 by (simp add: field_simps)
    have "(of_int m :: rat) < of_int ((q + 1) * 2 ^ N)" using hi by (simp only: of_int_less_iff)
    then have "of_int m < of_int (q + 1) * u" by (simp only: ui)
    then have yhi: "of_int m / u < of_int q + 1"
      using u0 by (simp add: field_simps)
    have fl1: "\<lfloor>of_int m / u\<rfloor> = q"
      using ylo yhi by (simp add: floor_eq_iff)
    have "0 \<le> a" using 1 bq by (simp add: x_def zero_less_divide_iff)
    then have "(of_int a :: rat) / of_int b \<le> of_int a / 1"
      using b1 by (intro divide_left_mono) simp_all
    then have "\<lfloor>(of_int a :: rat) / of_int b\<rfloor> \<le> \<lfloor>(of_int a :: rat) / 1\<rfloor>"
      by (rule floor_mono)
    then have "q \<le> a" by (simp add: floor_divide_of_int_eq q_def)
    then have "q + 1 \<le> 2 ^ 53" using a by linarith
    then have "(of_int (q + 1) :: rat) \<le> of_int (2 ^ 53)" by (simp only: of_int_le_iff)
    then have "of_int q + 1 \<le> (2 ^ 53 :: rat)" by simp
    then have "of_int m / u < (2 :: rat) powi 1024"
      using yhi big by linarith
    then have fin: "\<not> (2 :: rat) powi 1024 \<le> of_int m / u"
      by (simp only: not_le)
    have "fl x = Finite (of_int m / u)"
      by (simp only: fl_nonzero [OF x0] k_def [symmetric] m_def [symmetric] fin if_False sg val
          mult_1)
    with fl1 show ?thesis by (simp add: x_def q_def)
  next
    case 2
    then have abs: "\<bar>x\<bar> = - x" and sg: "sgn x = - 1" by simp_all
    have "\<bar>x\<bar> * u \<le> of_int (- q) * u"
      using qx u0 by (simp add: abs)
    then have "\<bar>x\<bar> * u \<le> of_int ((- q) * 2 ^ N)"
      by (simp only: ui)
    then have hi: "m \<le> (- q) * 2 ^ N"
      unfolding m_def arg by (rule roundHalfEven_le)
    have "of_int (- (q + 1)) * u + 1 / 2 < \<bar>x\<bar> * u"
      using gap by (simp add: abs algebra_simps)
    then have "of_int ((- (q + 1)) * 2 ^ N) + 1 / 2 < \<bar>x\<bar> * u"
      by (simp only: ui)
    then have lo: "(- (q + 1)) * 2 ^ N < m"
      unfolding m_def arg by (rule roundHalfEven_gt)
    have "(of_int m :: rat) \<le> of_int ((- q) * 2 ^ N)" using hi by (simp only: of_int_le_iff)
    then have "of_int m \<le> of_int (- q) * u" by (simp only: ui)
    then have ylo: "of_int q \<le> - (of_int m / u)"
      using u0 by (simp add: field_simps)
    have "of_int ((- (q + 1)) * 2 ^ N) < (of_int m :: rat)" using lo by (simp only: of_int_less_iff)
    then have "of_int (- (q + 1)) * u < of_int m" by (simp only: ui)
    then have yhi: "- (of_int m / u) < of_int q + 1"
      using u0 by (simp add: field_simps)
    have fl1: "\<lfloor>- (of_int m / u)\<rfloor> = q"
      using ylo yhi by (simp add: floor_eq_iff)
    have "of_int m / u \<le> - of_int q" using ylo by simp
    also have "- of_int q \<le> (of_int \<bar>a\<bar> :: rat)"
    proof -
      have "a < 0" using 2 bq by (simp add: x_def divide_less_0_iff)
      then have "(of_int a :: rat) \<le> of_int a / of_int b"
        using b1 bq by (simp add: field_simps mult_le_cancel_left)
      then have "a \<le> \<lfloor>(of_int a :: rat) / of_int b\<rfloor>" by (simp only: le_floor_iff)
      then have "a \<le> q" by (simp only: floor_divide_of_int_eq q_def)
      then have "- q \<le> \<bar>a\<bar>" by simp
      then have "(of_int (- q) :: rat) \<le> of_int \<bar>a\<bar>" by (simp only: of_int_le_iff)
      then show ?thesis by simp
    qed
    also have "\<dots> < 2 ^ 53" using \<open>of_int \<bar>a\<bar> < (of_int (2 ^ 53) :: rat)\<close> by simp
    finally have "of_int m / u < (2 :: rat) powi 1024" using big by linarith
    then have fin: "\<not> (2 :: rat) powi 1024 \<le> of_int m / u"
      by (simp only: not_le)
    have "fl x = Finite (- (of_int m / u))"
      by (simp only: fl_nonzero [OF x0] k_def [symmetric] m_def [symmetric] fin if_False sg val
          mult_minus1)
    with fl1 show ?thesis by (simp add: x_def q_def)
  qed
qed

lemma fl_overflow:
  assumes "(2 :: rat) powi 1024 \<le> \<bar>x\<bar>"
  shows "fl x = (if 0 < x then PosInf else NegInf)"
proof -
  have p0: "(0 :: rat) < 2 powi n" for n by (rule zero_less_power_int) simp
  have x0: "x \<noteq> 0" using assms p0 [of 1024] by auto
  define k where "k = max (binade x) (- 1022) - 52"
  define m where "m = roundHalfEven (\<bar>x\<bar> / 2 powi k)"
  have "(2 :: rat) powi 1024 \<le> of_int m * 2 powi k"
  proof (cases "k \<le> 1024")
    case True
    define n where "n = nat (1024 - k)"
    have "(2 :: rat) powi 1024 = 2 powi (int n + k)"
      using True by (simp add: n_def)
    also have "\<dots> = 2 powi int n * 2 powi k"
      by (rule power_int_add) simp
    finally have e: "(2 :: rat) powi 1024 = of_int (2 ^ n) * 2 powi k"
      by (simp only: power_int_of_nat) simp
    have "of_int (2 ^ n) * 2 powi k \<le> \<bar>x\<bar>"
      using assms by (simp only: e)
    then have "of_int (2 ^ n) \<le> \<bar>x\<bar> / 2 powi k"
      using p0 [of k] by (simp add: field_simps)
    then have "2 ^ n \<le> m"
      unfolding m_def by (rule roundHalfEven_ge)
    then have "(of_int (2 ^ n) :: rat) \<le> of_int m"
      by (simp only: of_int_le_iff)
    then have "(of_int (2 ^ n) :: rat) * 2 powi k \<le> of_int m * 2 powi k"
      using p0 [of k] by (simp only: mult_le_cancel_right_pos)
    then show ?thesis by (simp only: e)
  next
    case False
    then have b: "binade x = k + 52" and big: "1024 \<le> k + 52"
      by (simp_all add: k_def)
    have "(2 :: rat) powi (k + 52) = 2 powi k * 2 powi 52"
      by (rule power_int_add) simp
    also have "\<dots> = of_int (2 ^ 52) * 2 powi k"
      by (simp only: power_int_numeral) simp
    finally have e: "(2 :: rat) powi (k + 52) = of_int (2 ^ 52) * 2 powi k" .
    have "of_int (2 ^ 52) * 2 powi k \<le> \<bar>x\<bar>"
      using binade_le [OF x0] by (simp only: b e)
    then have "of_int (2 ^ 52) \<le> \<bar>x\<bar> / 2 powi k"
      using p0 [of k] by (simp add: field_simps)
    then have "2 ^ 52 \<le> m"
      unfolding m_def by (rule roundHalfEven_ge)
    then have "(of_int (2 ^ 52) :: rat) \<le> of_int m"
      by (simp only: of_int_le_iff)
    then have "(of_int (2 ^ 52) :: rat) * 2 powi k \<le> of_int m * 2 powi k"
      using p0 [of k] by (simp only: mult_le_cancel_right_pos)
    then have "(2 :: rat) powi (k + 52) \<le> of_int m * 2 powi k"
      by (simp only: e)
    moreover have "(2 :: rat) powi 1024 \<le> 2 powi (k + 52)"
      using big by (intro power_int_increasing) simp_all
    ultimately show ?thesis by (rule order_trans [rotated])
  qed
  then show ?thesis
    by (simp only: fl_nonzero [OF x0] k_def [symmetric] m_def [symmetric] if_True)
qed

text \<open>The operators on integers in the range where doubles are exact.\<close>

lemma jsNeg_num: "jsNeg (num a) = num (- a)"
  by (simp add: num_def)

lemma jsLe_num: "jsLe (num a) (num b) \<longleftrightarrow> a \<le> b"
  by (simp add: num_def)

lemma jsAdd_num: "\<bar>a + b\<bar> < 2 ^ 53 \<Longrightarrow> jsAdd (num a) (num b) = num (a + b)"
  using fl_int [of "a + b"] by (simp add: num_def)

lemma jsMul_num: "\<bar>a * b\<bar> < 2 ^ 53 \<Longrightarrow> jsMul (num a) (num b) = num (a * b)"
  using fl_int [of "a * b"] by (simp add: num_def)

lemma counter_num:
  assumes "\<bar>a\<bar> < 2 ^ 53" and "0 < b" and "b < 2 ^ 53"
  shows "BigInt (Math_floor (jsDiv (num a) (num b))) = Inr (a div b)"
proof -
  obtain y where "fl (of_int a / of_int b) = Finite y" and "\<lfloor>y\<rfloor> = a div b"
    using fl_floor_div [OF assms] by blast
  then show ?thesis
    using assms(2) by (simp add: num_def)
qed

subsection \<open>Timing-safe comparison\<close>

lemma charCode_inj:
  "(of_nat (of_char c) :: int32) = of_nat (of_char d) \<longleftrightarrow> c = d"
proof
  assume h: "(of_nat (of_char c) :: int32) = of_nat (of_char d)"
  have b: "(of_char x :: nat) < 2 ^ 32" for x
  proof -
    have "(of_char x :: nat) mod 256 < 256" by (rule mod_less_divisor) simp
    then have "(of_char x :: nat) < 256" by (simp only: of_char_mod_256)
    also have "(256 :: nat) < 2 ^ 32" by simp
    finally show ?thesis .
  qed
  from h have "unat (of_nat (of_char c) :: int32) = unat (of_nat (of_char d) :: int32)"
    by simp
  with b [of c] b [of d] have "(of_char c :: nat) = of_char d"
    by (simp add: unat_of_nat)
  then show "c = d" by simp
qed simp

lemma or_eq_0_word: "(x OR y = (0 :: int32)) \<longleftrightarrow> x = 0 \<and> y = 0"
  by (auto simp: bit_eq_iff bit_or_iff)

lemma xor_eq_0_word: "(x XOR y = (0 :: int32)) \<longleftrightarrow> x = y"
  by (auto simp: bit_eq_iff bit_xor_iff)

lemma range_split:
  "i < (n::nat) \<Longrightarrow>
     (\<forall>j. i \<le> j \<and> j < n \<longrightarrow> Q j) \<longleftrightarrow> Q i \<and> (\<forall>j. i + 1 \<le> j \<and> j < n \<longrightarrow> Q j)"
  by (auto simp: Suc_le_eq dest: le_neq_implies_less)

lemma ctc_for_zero:
  "ctc_for a b i r = 0 \<longleftrightarrow>
     r = 0 \<and> (\<forall>j. i \<le> j \<and> j < length a \<longrightarrow> charCodeAt a j = charCodeAt b j)"
proof (induction a b i r rule: ctc_for.induct)
  case (1 a b i r)
  show ?case
  proof (cases "i < length a")
    case True
    have "ctc_for a b i r = ctc_for a b (i + 1) (r OR (charCodeAt a i XOR charCodeAt b i))"
      using True by (subst ctc_for.simps) simp
    also have "\<dots> = 0 \<longleftrightarrow> (r OR (charCodeAt a i XOR charCodeAt b i)) = 0 \<and>
        (\<forall>j. i + 1 \<le> j \<and> j < length a \<longrightarrow> charCodeAt a j = charCodeAt b j)"
      using 1 True by simp
    also have "\<dots> \<longleftrightarrow>
        r = 0 \<and> (\<forall>j. i \<le> j \<and> j < length a \<longrightarrow> charCodeAt a j = charCodeAt b j)"
      unfolding or_eq_0_word xor_eq_0_word
      using range_split [OF True, of "\<lambda>j. charCodeAt a j = charCodeAt b j"] by blast
    finally show ?thesis .
  next
    case False
    then show ?thesis by (subst ctc_for.simps) auto
  qed
qed

lemma constantTimeCompare_eq:
  "constantTimeCompare a b \<longleftrightarrow> a = b"
proof (cases "length a = length b")
  case False
  then show ?thesis by (auto simp: constantTimeCompare_def)
next
  case True
  have "constantTimeCompare a b \<longleftrightarrow> (\<forall>j < length a. a ! j = b ! j)"
    using True by (simp add: constantTimeCompare_def ctc_for_zero charCodeAt_def charCode_inj)
  also have "\<dots> \<longleftrightarrow> a = b"
    using True by (auto intro: nth_equalityI)
  finally show ?thesis .
qed

lemma ctc_for_fold:
  "ctc_for a b i r
     = foldl (OR) r (map (\<lambda>j. charCodeAt a j XOR charCodeAt b j) [i..<length a])"
proof (induction a b i r rule: ctc_for.induct)
  case (1 a b i r)
  show ?case
  proof (cases "i < length a")
    case True
    then have "[i..<length a] = i # [i + 1..<length a]"
      by (simp add: upt_conv_Cons)
    with 1 [OF True] True show ?thesis
      by (subst ctc_for.simps) simp
  next
    case False
    then show ?thesis by (subst ctc_for.simps) simp
  qed
qed

text \<open>
  Claim C8. \<open>constantTimeCompare a b\<close> is true exactly when the two strings are equal.
  Strings of different lengths compare false; for strings of one length the result is
  true exactly when the disjunction, accumulated over all positions, of the exclusive-ors
  of the code units is zero.
\<close>

theorem constantTimeCompare_iff_equal:
  "(constantTimeCompare a b \<longleftrightarrow> a = b)
   \<and> (constantTimeCompare a b \<longleftrightarrow>
        length a = length b
        \<and> foldl (OR) (0 :: int32)
              (map (\<lambda>j. charCodeAt a j XOR charCodeAt b j) [0..<length a]) = 0)"
proof
  show "constantTimeCompare a b \<longleftrightarrow> a = b"
    by (rule constantTimeCompare_eq)
  show "constantTimeCompare a b \<longleftrightarrow>
      length a = length b
      \<and> foldl (OR) (0 :: int32)
            (map (\<lambda>j. charCodeAt a j XOR charCodeAt b j) [0..<length a]) = 0"
    by (simp add: constantTimeCompare_def ctc_for_fold)
qed

subsection \<open>The counter as eight big-endian bytes\<close>

lemma counterBytes_unfold:
  "counterBytes c =
     [word_of_int (drop_bit 56 c AND 255), word_of_int (drop_bit 48 c AND 255),
      word_of_int (drop_bit 40 c AND 255), word_of_int (drop_bit 32 c AND 255),
      word_of_int (drop_bit 24 c AND 255), word_of_int (drop_bit 16 c AND 255),
      word_of_int (drop_bit 8 c AND 255), word_of_int (c AND 255)]"
  by (simp add: counterBytes_def eval_nat_numeral drop_bit_drop_bit)

lemma uint_low_byte: "uint (word_of_int (x AND 255) :: byte) = x mod 256"
proof -
  have "x AND 255 = take_bit 8 x"
    by (simp add: take_bit_eq_mask mask_eq_exp_minus_1)
  then show ?thesis
    by (simp add: uint_word_of_int take_bit_eq_mod)
qed

lemma beValue_counterBytes:
  "beValue (counterBytes c) =
     72057594037927936 * (c div 72057594037927936 mod 256) +
     281474976710656 * (c div 281474976710656 mod 256) +
     1099511627776 * (c div 1099511627776 mod 256) +
     4294967296 * (c div 4294967296 mod 256) +
     16777216 * (c div 16777216 mod 256) +
     65536 * (c div 65536 mod 256) +
     256 * (c div 256 mod 256) + c mod 256"
  by (simp add: counterBytes_unfold beValue_def uint_low_byte drop_bit_eq_div)

lemma mod_2_64_bytes:
  fixes c :: int
  shows "c mod 18446744073709551616 =
     72057594037927936 * (c div 72057594037927936 mod 256) +
     281474976710656 * (c div 281474976710656 mod 256) +
     1099511627776 * (c div 1099511627776 mod 256) +
     4294967296 * (c div 4294967296 mod 256) +
     16777216 * (c div 16777216 mod 256) +
     65536 * (c div 65536 mod 256) +
     256 * (c div 256 mod 256) + c mod 256"
proof -
  have s: "0 \<le> m \<Longrightarrow> c mod (256 * m) = m * (c div m mod 256) + c mod m" for m :: int
    using zmod_zmult2_eq [of 256 c m] by (simp add: mult.commute)
  have "c mod 18446744073709551616 =
      72057594037927936 * (c div 72057594037927936 mod 256) + c mod 72057594037927936"
    using s [of 72057594037927936] by simp
  also have "c mod 72057594037927936 =
      281474976710656 * (c div 281474976710656 mod 256) + c mod 281474976710656"
    using s [of 281474976710656] by simp
  also have "c mod 281474976710656 =
      1099511627776 * (c div 1099511627776 mod 256) + c mod 1099511627776"
    using s [of 1099511627776] by simp
  also have "c mod 1099511627776 = 4294967296 * (c div 4294967296 mod 256) + c mod 4294967296"
    using s [of 4294967296] by simp
  also have "c mod 4294967296 = 16777216 * (c div 16777216 mod 256) + c mod 16777216"
    using s [of 16777216] by simp
  also have "c mod 16777216 = 65536 * (c div 65536 mod 256) + c mod 65536"
    using s [of 65536] by simp
  also have "c mod 65536 = 256 * (c div 256 mod 256) + c mod 256"
    using s [of 256] by simp
  finally show ?thesis by (simp only: add.assoc)
qed

text \<open>
  Claim C6. For every counter \<open>c\<close> the HMAC message built by \<open>generateHOTP\<close> has exactly
  eight bytes, and read as a big-endian number (most significant byte first) they are
  \<open>c mod 2^64\<close>, whatever the magnitude of \<open>c\<close>. (The claim asks this of the counters
  \<open>c \<ge> 0\<close>; it holds of the negative ones too, in two's complement.)
\<close>

theorem counterBytes_big_endian:
  "length (counterBytes c) = 8 \<and> beValue (counterBytes c) = c mod 2 ^ 64"
proof
  show "length (counterBytes c) = 8" by (simp add: counterBytes_unfold)
  have "(2 :: int) ^ 64 = 18446744073709551616" by simp
  then show "beValue (counterBytes c) = c mod 2 ^ 64"
    by (simp only: beValue_counterBytes mod_2_64_bytes)
qed

subsection \<open>Dynamic truncation\<close>

lemma truncOffset_le: "truncOffset digest \<le> 15"
proof -
  have "byteAt digest (int (length digest) - 1) AND 15 \<le> (15 :: int32)"
    by (rule word_and_le1)
  then show ?thesis
    by (simp add: truncOffset_def word_le_nat_alt)
qed

lemma low_nibble_ucast: "unat ((ucast (b :: byte) :: int32) AND 15) = unat b mod 16"
proof -
  have "(15 :: int32) = mask 4" by (simp add: mask_eq_exp_minus_1)
  then have "(ucast b :: int32) AND 15 = take_bit 4 (ucast b)"
    by (simp only: take_bit_eq_mask)
  also have "unat \<dots> = take_bit 4 (unat (ucast b :: int32))"
    by (simp only: unsigned_take_bit_eq)
  also have "unat (ucast b :: int32) = unat b"
    by (simp add: unsigned_ucast_eq take_bit_nat_eq_self_iff)
      (rule less_trans [OF unsigned_less], simp)
  finally show ?thesis by (simp add: take_bit_eq_mod)
qed

lemma truncCode_bit31: "\<not> bit (truncCode digest) 31"
  by (simp add: truncCode_def Let_def bit_simps)

lemma uint_31:
  fixes w :: int32
  assumes "\<not> bit w 31"
  shows "uint w = take_bit 31 (uint w)"
proof -
  have "uint w = take_bit (Suc 31) (uint w)"
    by (simp add: take_bit_int_eq_self uint_lt2p [of w, simplified])
  also have "\<dots> = take_bit 31 (uint w)"
    using assms by (simp only: take_bit_Suc_from_most) (simp add: bit_uint_iff)
  finally show ?thesis .
qed

lemma truncCode_uint: "uint (truncCode digest) < 2 ^ 31"
  using uint_31 [OF truncCode_bit31, of digest]
    take_bit_int_less_exp [of 31 "uint (truncCode digest)"]
  by simp

lemma truncCode_sint: "sint (truncCode digest) = uint (truncCode digest)"
proof -
  have "sint (truncCode digest) = signed_take_bit 31 (uint (truncCode digest))"
    by (simp add: sint_uint)
  also have "\<dots> = take_bit 31 (uint (truncCode digest))"
    using truncCode_bit31 [of digest] by (simp add: signed_take_bit_eq_if_positive bit_uint_iff)
  also have "\<dots> = uint (truncCode digest)"
    using uint_31 [OF truncCode_bit31, of digest] by simp
  finally show ?thesis .
qed

text \<open>
  Claim C5. For a digest of 20, 32 or 64 bytes (the digests of SHA-1, SHA-256 and SHA-512,
  see \<open>nodeHmac_length\<close>)
  the offset taken from the low four bits of the last byte satisfies
  \<open>offset + 3 < length digest\<close>, so the four bytes read are inside the digest, and the
  code, read as the signed 32-bit number that JavaScript makes of it, is not negative and
  below \<open>2^31\<close>.
\<close>

theorem truncation_in_bounds:
  assumes "length digest \<in> {20, 32, 64}"
  shows "truncOffset digest = unat (last digest) mod 16
       \<and> truncOffset digest + 3 < length digest
       \<and> 0 \<le> sint (truncCode digest) \<and> sint (truncCode digest) < 2 ^ 31"
proof -
  have ne: "digest \<noteq> []" using assms by auto
  have "byteAt digest (int (length digest) - 1) = ucast (last digest)"
    using ne by (simp add: byteAt_def last_conv_nth nat_diff_distrib' of_nat_diff)
  then have "truncOffset digest = unat ((ucast (last digest) :: int32) AND 15)"
    by (simp add: truncOffset_def)
  also have "\<dots> = unat (last digest) mod 16"
    by (rule low_nibble_ucast)
  finally have "truncOffset digest = unat (last digest) mod 16" .
  then show ?thesis
    using assms truncOffset_le [of digest] truncCode_uint [of digest]
    by (auto simp: truncCode_sint)
qed

theorem truncation_in_bounds_witness:
  "length (nodeHmac ''sha256'' [1, 2, 3] [0, 0, 0, 0, 0, 0, 0, 1]) \<in> {20, 32, 64}
   \<and> truncOffset (nodeHmac ''sha256'' [1, 2, 3] [0, 0, 0, 0, 0, 0, 0, 1]) + 3
       < length (nodeHmac ''sha256'' [1, 2, 3] [0, 0, 0, 0, 0, 0, 0, 1])
   \<and> 0 \<le> sint (truncCode (nodeHmac ''sha256'' [1, 2, 3] [0, 0, 0, 0, 0, 0, 0, 1]))"
proof -
  have h: "length (nodeHmac ''sha256'' [1, 2, 3] [0, 0, 0, 0, 0, 0, 0, 1]) \<in> {20, 32, 64}"
    by (rule nodeHmac_length) simp
  from truncation_in_bounds [OF h] h show ?thesis by blast
qed

subsection \<open>The digits of a token\<close>

lemma of_char_digitChar: "d < 10 \<Longrightarrow> (of_char (digitChar d) :: nat) = 48 + d"
  by (simp add: digitChar_def)

lemma isDigit_digitChar: "d < 10 \<Longrightarrow> isDigit (digitChar d)"
  by (simp add: isDigit_def of_char_digitChar)

lemma natToString_digits: "\<forall>c \<in> set (natToString n). isDigit c"
proof (induction n rule: natToString.induct)
  case (1 n)
  show ?case
  proof (cases "n < 10")
    case True
    then show ?thesis by (subst natToString.simps) (simp add: isDigit_digitChar)
  next
    case False
    with 1 show ?thesis by (subst natToString.simps) (simp add: isDigit_digitChar)
  qed
qed

lemma decimalValue_snoc: "decimalValue (s @ [c]) = decimalValue s * 10 + (of_char c - 48)"
  by (simp add: decimalValue_def)

lemma natToString_value: "decimalValue (natToString n) = n"
proof (induction n rule: natToString.induct)
  case (1 n)
  show ?case
  proof (cases "n < 10")
    case True
    then show ?thesis
      by (subst natToString.simps) (simp add: decimalValue_def of_char_digitChar)
  next
    case False
    with 1 show ?thesis
      by (subst natToString.simps) (simp add: decimalValue_snoc of_char_digitChar)
  qed
qed

lemma natToString_length: "n < 10 ^ d \<Longrightarrow> 1 \<le> d \<Longrightarrow> length (natToString n) \<le> d"
proof (induction n arbitrary: d rule: natToString.induct)
  case (1 n)
  show ?case
  proof (cases "n < 10")
    case True
    with 1(3) show ?thesis by (subst natToString.simps) simp
  next
    case False
    obtain e where d: "d = Suc e" using 1(3) by (cases d) auto
    have "e \<noteq> 0" using False 1(2) d by (cases e) auto
    moreover have "n div 10 < 10 ^ e"
      using 1(2) d by (simp add: less_mult_imp_div_less mult.commute)
    ultimately have "length (natToString (n div 10)) \<le> e"
      using 1(1) [OF False, of e] by simp
    with False d show ?thesis by (subst natToString.simps) simp
  qed
qed

lemma natToString_nonempty: "natToString n \<noteq> []"
  by (subst natToString.simps) simp

lemma decimalValue_zeros: "decimalValue (replicate k CHR ''0'' @ s) = decimalValue s"
  by (induction k) (simp_all add: decimalValue_def)

lemma jsRem_nonneg: "0 \<le> a \<Longrightarrow> 0 < b \<Longrightarrow> jsRem a b = a mod b"
  by (cases "a = 0") (simp_all add: jsRem_def)

lemma truncCode_range:
  "0 \<le> sint (truncCode digest) \<and> sint (truncCode digest) < 2 ^ 31"
  using truncCode_uint [of digest] by (simp add: truncCode_sint)

text \<open>The remainder has at most ten digits, whatever the number of digits asked for.\<close>

lemma otp_length:
  "length (numToString (jsRem (sint (truncCode digest)) (10 ^ d))) \<le> 10"
proof -
  define code where "code = sint (truncCode digest)"
  have c: "0 \<le> code" "code < 2 ^ 31"
    using truncCode_range [of digest] by (simp_all add: code_def)
  define r where "r = nat (code mod 10 ^ d)"
  have "code mod 10 ^ d \<le> code"
    using c(1) by (intro zmod_le_nonneg_dividend)
  then have "r < 10 ^ 10" using c by (simp add: r_def)
  then have "length (natToString r) \<le> 10"
    by (intro natToString_length) simp_all
  moreover have "code mod 10 ^ d = int r"
    by (simp add: r_def)
  then have "numToString (jsRem code (10 ^ d)) = natToString r"
    using c(1) by (simp add: jsRem_nonneg numToString_def)
  ultimately show ?thesis by (simp add: code_def)
qed

lemma maxStringLength_ge: "10 \<le> maxStringLength"
  by (simp add: maxStringLength_def)

lemma padStart_ok:
  "length s \<le> n \<Longrightarrow> n \<le> maxStringLength \<Longrightarrow>
     padStart n c s = Inr (replicate (n - length s) c @ s)"
  by (simp add: padStart_def)

lemma generateHOTP_supported:
  assumes "algoMap algorithm = Some name"
  shows "generateHOTP hmac secret counter d algorithm
     = padStart d CHR ''0''
         (numToString (jsRem (sint (truncCode (hmac name secret (counterBytes counter))))
            (10 ^ d)))"
  using assms by (simp add: generateHOTP_def Let_def)

text \<open>Beyond the longest string of the engine there is no token.\<close>

lemma generateHOTP_too_long:
  assumes "algoMap algorithm = Some name" and "maxStringLength < d"
  shows "generateHOTP hmac secret counter d algorithm = Inl InvalidStringLength"
proof -
  have "length (numToString (jsRem (sint (truncCode (hmac name secret (counterBytes counter))))
      (10 ^ d))) < d"
    using otp_length [of "hmac name secret (counterBytes counter)" d] maxStringLength_ge
      assms(2) by linarith
  then show ?thesis
    using assms(2) by (simp add: generateHOTP_supported [OF assms(1)] padStart_def)
qed

text \<open>Up to that length there is one, whatever the counter.\<close>

lemma generateHOTP_returns:
  assumes "algoMap algorithm = Some name" and "d \<le> maxStringLength"
  shows "\<exists>tok. generateHOTP hmac secret counter d algorithm = Inr tok"
  using assms(2) by (simp add: generateHOTP_supported [OF assms(1)] padStart_def)

lemma generateHOTP_returns_any:
  assumes "generateHOTP hmac secret counter d algorithm = Inr tok"
  shows "\<exists>tok'. generateHOTP hmac secret counter' d algorithm = Inr tok'"
proof -
  obtain name where n: "algoMap algorithm = Some name"
    using assms by (cases "algoMap algorithm") (simp_all add: generateHOTP_def)
  have "d \<le> maxStringLength"
  proof (rule ccontr)
    assume "\<not> d \<le> maxStringLength"
    then have "generateHOTP hmac secret counter d algorithm = Inl InvalidStringLength"
      by (intro generateHOTP_too_long [OF n]) simp
    with assms show False by simp
  qed
  then show ?thesis by (rule generateHOTP_returns [OF n])
qed

text \<open>
  Claim C3, as amended. For every secret, counter and collaborator, every supported
  algorithm and every number of digits \<open>d\<close> from 1 up to the longest string of the engine,
  \<open>generateHOTP\<close> returns a string of exactly \<open>d\<close> characters, all of them decimal digits,
  and the number that this string denotes is the truncated code modulo \<open>10^d\<close>: the string
  is that remainder, padded with zeros on the left.
\<close>

theorem generateHOTP_digits:
  assumes "1 \<le> d" and "d \<le> maxStringLength" and "algoMap algorithm = Some name"
  shows "\<exists>s. generateHOTP hmac secret counter d algorithm = Inr s
           \<and> length s = d \<and> (\<forall>c \<in> set s. isDigit c)
           \<and> int (decimalValue s)
               = sint (truncCode (hmac name secret (counterBytes counter))) mod 10 ^ d"
proof -
  define code where "code = sint (truncCode (hmac name secret (counterBytes counter)))"
  have nonneg: "0 \<le> code"
    using truncCode_sint [of "hmac name secret (counterBytes counter)"] by (simp add: code_def)
  define r where "r = nat (code mod 10 ^ d)"
  have r: "code mod 10 ^ d = int r" by (simp add: r_def)
  have "int r < 10 ^ d" unfolding r [symmetric] by simp
  then have rlt: "r < 10 ^ d" by (metis of_nat_less_iff of_nat_numeral of_nat_power)
  have otp: "numToString (jsRem code (10 ^ d)) = natToString r"
    using nonneg by (simp add: jsRem_nonneg numToString_def r)
  have len: "length (natToString r) \<le> d"
    using natToString_length [OF rlt assms(1)] .
  define s where "s = replicate (d - length (natToString r)) CHR ''0'' @ natToString r"
  have gen: "generateHOTP hmac secret counter d algorithm = Inr s"
    unfolding generateHOTP_supported [OF assms(3)] code_def [symmetric] otp s_def
    using len assms(2) by (rule padStart_ok)
  have z: "isDigit CHR ''0''" by (simp add: isDigit_def)
  have val: "int (decimalValue s) = code mod 10 ^ d"
    by (simp add: s_def decimalValue_zeros natToString_value r)
  have "length s = d"
    using len by (simp add: s_def)
  moreover have "\<forall>c \<in> set s. isDigit c"
    using natToString_digits [of r] z by (auto simp: s_def)
  ultimately show ?thesis
    using gen val unfolding code_def by blast
qed

theorem generateHOTP_digits_witness:
  "(1 :: nat) \<le> 6 \<and> 6 \<le> maxStringLength \<and> algoMap ''SHA-1'' = Some ''sha1''
   \<and> (\<exists>s. generateHOTP nodeHmac [1, 2, 3] 1 6 ''SHA-1'' = Inr s
          \<and> length s = 6 \<and> (\<forall>c \<in> set s. isDigit c))"
  using generateHOTP_digits [of 6 "''SHA-1''" "''sha1''" nodeHmac "[1, 2, 3]" 1]
  by (auto simp: algoMap_def maxStringLength_def)

text \<open>
  Without the bound the claim fails: for 600000000 digits \<open>padStart\<close> throws, and
  \<open>generateHOTP\<close> returns no string at all.
\<close>

theorem generateHOTP_digits_counterexample:
  "generateHOTP nodeHmac [1, 2, 3] 1 600000000 ''SHA-1'' = Inl InvalidStringLength"
  by (rule generateHOTP_too_long [of _ "''sha1''"]) (simp_all add: algoMap_def maxStringLength_def)

subsection \<open>Unsupported algorithm selectors\<close>

text \<open>
  Claim C7. For every selector outside SHA-1, SHA-256 and SHA-512, \<open>generateHOTP\<close> fails
  at the call: the lookup in \<open>algoMap\<close> yields no hash name, and \<open>createHmac\<close> rejects
  it with a TypeError. The result does not depend on the HMAC primitive, the secret or the
  counter: nothing is computed, and no supported algorithm is used instead.
\<close>

theorem unsupported_algorithm_rejected:
  assumes "algorithm \<notin> {''SHA-1'', ''SHA-256'', ''SHA-512''}"
  shows "generateHOTP hmac secret counter digits algorithm = Inl HmacArgTypeError"
  using assms by (simp add: generateHOTP_def algoMap_def)

theorem unsupported_algorithm_rejected_witness:
  "''MD5'' \<notin> {''SHA-1'', ''SHA-256'', ''SHA-512''}
   \<and> generateHOTP nodeHmac [1, 2, 3] 7 6 ''MD5'' = Inl HmacArgTypeError"
  using unsupported_algorithm_rejected [of "''MD5''" nodeHmac "[1, 2, 3]" 7 6] by simp

subsection \<open>Verification over a window\<close>

text \<open>
  On integers in the exact range the counter is the integer quotient, and whether
  \<open>generateTOTP\<close> returns a token does not depend on the time stamp.
\<close>

lemma generateTOTP_num:
  assumes "\<bar>a\<bar> < 2 ^ 53" and "0 < b" and "b < 2 ^ 53"
  shows "generateTOTP hmac secret (num a) (num b) digits algorithm
     = (case base32Decode secret of
          Inl e \<Rightarrow> Inl e
        | Inr key \<Rightarrow> generateHOTP hmac key (a div b) digits algorithm)"
  by (cases "base32Decode secret") (simp_all add: generateTOTP_def counter_num [OF assms])

lemma generateTOTP_returns_any:
  assumes "generateTOTP hmac secret (num a) (num b) digits algorithm = Inr tok"
    and "\<bar>a\<bar> < 2 ^ 53" and "\<bar>a'\<bar> < 2 ^ 53" and "0 < b" and "b < 2 ^ 53"
  shows "\<exists>tok'. generateTOTP hmac secret (num a') (num b) digits algorithm = Inr tok'"
proof -
  obtain key where key: "base32Decode secret = Inr key"
    and gen: "generateHOTP hmac key (a div b) digits algorithm = Inr tok"
    using assms(1) unfolding generateTOTP_num [OF assms(2,4,5)]
    by (cases "base32Decode secret") simp_all
  show ?thesis
    unfolding generateTOTP_num [OF assms(3,4,5)] key
    using generateHOTP_returns_any [OF gen] by simp
qed

lemma generateTOTP_nonempty:
  assumes "generateTOTP hmac secret ts step digits algorithm = Inr tok"
  shows "tok \<noteq> []"
proof -
  obtain key c where "generateHOTP hmac key c digits algorithm = Inr tok"
    using assms unfolding generateTOTP_def
    by (auto split: sum.splits)
  then obtain name where "padStart digits CHR ''0''
      (numToString (jsRem (sint (truncCode (hmac name key (counterBytes c)))) (10 ^ digits)))
      = Inr tok"
    by (cases "algoMap algorithm") (simp_all add: generateHOTP_def Let_def)
  then show ?thesis
    by (auto simp: padStart_def numToString_def natToString_nonempty split: if_splits)
qed

text \<open>The time stamps and the offsets of a window in the exact range.\<close>

lemma window_range:
  assumes "0 \<le> (t :: int)" and "0 < step" and "0 \<le> w" and "t + w * step < 2 ^ 53"
    and "- w \<le> i" and "i \<le> w"
  shows "\<bar>i * step\<bar> < 2 ^ 53" and "\<bar>t + i * step\<bar> < 2 ^ 53" and "\<bar>i\<bar> < 2 ^ 53"
proof -
  have "\<bar>i\<bar> \<le> w" using assms(5,6) by linarith
  then have "\<bar>i\<bar> * step \<le> w * step"
    using assms(2) by (intro mult_right_mono) simp_all
  then have m: "\<bar>i * step\<bar> \<le> w * step"
    using assms(2) by (simp add: abs_mult)
  then show "\<bar>i * step\<bar> < 2 ^ 53" using assms(1,4) by linarith
  show "\<bar>t + i * step\<bar> < 2 ^ 53" using m assms(1,4) by linarith
  have "w * 1 \<le> w * step"
    using assms(2,3) by (intro mult_left_mono) simp_all
  then show "\<bar>i\<bar> < 2 ^ 53" using assms(1,4,5,6) by simp
qed

lemma adjusted_num:
  assumes "0 \<le> t" and "0 < step" and "0 \<le> w" and "t + w * step < 2 ^ 53"
    and "- w \<le> i" and "i \<le> w"
  shows "jsAdd (num t) (jsMul (num i) (num step)) = num (t + i * step)"
  using window_range(1,2) [OF assms] by (simp add: jsMul_num jsAdd_num)

lemma verify_for_hit:
  assumes b: "0 \<le> t" "0 < step" "step < 2 ^ 53" "0 \<le> w" "t + w * step < 2 ^ 53"
    and hit: "generateTOTP hmac secret (num (t + j * step)) (num step) digits algorithm
      = Inr token"
    and "- w \<le> i" "i \<le> j" "j \<le> w"
  shows "verify_for hmac secret token (num t) (num w) (num step) digits algorithm (num i)
     = Some (Inr True)"
  using assms(7,8)
proof (induction "nat (j - i)" arbitrary: i)
  case 0
  then have ij: "i = j" by simp
  have "jsAdd (num t) (jsMul (num j) (num step)) = num (t + j * step)"
    using 0 assms(9) ij by (intro adjusted_num [OF b(1,2,4,5)]) simp_all
  with hit assms(9) ij show ?case
    by (subst verify_for.simps) (simp add: jsLe_num constantTimeCompare_eq)
next
  case (Suc n)
  then have lt: "i < j" and le: "i \<le> w" and ge: "- w \<le> i"
    using assms(9) by auto
  have adj: "jsAdd (num t) (jsMul (num i) (num step)) = num (t + i * step)"
    using ge le by (intro adjusted_num [OF b(1,2,4,5)])
  have "- w \<le> i + 1" "i + 1 \<le> w" using ge lt assms(9) by simp_all
  then have nxt: "jsAdd (num i) (num 1) = num (i + 1)"
    by (intro jsAdd_num window_range(3) [OF b(1,2,4,5)])
  have "- w \<le> j" using ge lt by simp
  then have "\<bar>t + j * step\<bar> < 2 ^ 53"
    using assms(9) by (intro window_range(2) [OF b(1,2,4,5)])
  moreover have "\<bar>t + i * step\<bar> < 2 ^ 53"
    using ge le by (intro window_range(2) [OF b(1,2,4,5)])
  ultimately obtain e
    where e: "generateTOTP hmac secret (num (t + i * step)) (num step) digits algorithm = Inr e"
    using generateTOTP_returns_any [OF hit _ _ b(2,3)] by blast
  have rec: "verify_for hmac secret token (num t) (num w) (num step) digits algorithm
      (num (i + 1)) = Some (Inr True)"
    using Suc(1) [of "i + 1"] Suc(2) lt ge by simp
  show ?case
    using e le rec by (subst verify_for.simps) (simp add: jsLe_num adj nxt)
qed

text \<open>A window of 0 compares the candidate with the one token generated at the time itself.\<close>

lemma jsAdd_zero: "isDouble x \<Longrightarrow> jsAdd x (jsMul (num 0) (num b)) = x"
  by (cases x) (simp_all add: num_def isDouble_def fl_def)

lemma isDouble_num: "\<bar>n\<bar> < 2 ^ 53 \<Longrightarrow> isDouble (num n)"
  by (simp add: isDouble_def num_def fl_int)

lemma verifyTOTP_window0:
  assumes "isDouble ts" and "generateTOTP hmac secret ts (num b) d alg = Inr e"
  shows "verifyTOTP hmac secret tok ts (num 0) (num b) d alg = Some (Inr (tok = e))"
proof -
  have one: "jsAdd (num 0) (num 1) = num 1"
    using jsAdd_num [of 0 1] by simp
  have last: "verify_for hmac secret tok ts (num 0) (num b) d alg (num 1) = Some (Inr False)"
    by (subst verify_for.simps) (simp add: jsLe_num)
  have "verify_for hmac secret tok ts (num 0) (num b) d alg (num 0) = Some (Inr (tok = e))"
    using assms(2) last
    by (subst verify_for.simps)
      (simp add: jsLe_num jsAdd_zero [OF assms(1)] one constantTimeCompare_eq)
  then show ?thesis
    using jsNeg_num [of 0] by (simp add: verifyTOTP_def)
qed

text \<open>
  Claim C4, as amended. Let the time stamp \<open>t \<ge> 0\<close>, the step \<open>> 0\<close> and the window
  \<open>w \<ge> 0\<close> be integers with the step and \<open>t + w * step\<close> not above
  \<open>Number.MAX_SAFE_INTEGER\<close>, and let \<open>|k| \<le> w\<close>. Then every token that \<open>generateTOTP\<close>
  returns at \<open>t - k * step\<close> is accepted by \<open>verifyTOTP\<close> at \<open>t\<close> with window \<open>w\<close>: the call
  returns, and it returns true. With \<open>w = 0\<close> this holds for the token generated at \<open>t\<close>
  itself.
\<close>

theorem verifyTOTP_window:
  assumes "0 \<le> t" and "0 < step" and "0 \<le> w" and "\<bar>k\<bar> \<le> w"
    and "step \<le> maxSafeInteger" and "t + w * step \<le> maxSafeInteger"
  shows "(generateTOTP hmac secret (num (t - k * step)) (num step) digits algorithm = Inr tok
           \<longrightarrow> verifyTOTP hmac secret tok (num t) (num w) (num step) digits algorithm
                 = Some (Inr True))
       \<and> (generateTOTP hmac secret (num t) (num step) digits algorithm = Inr tok0
           \<longrightarrow> verifyTOTP hmac secret tok0 (num t) (num 0) (num step) digits algorithm
                 = Some (Inr True))"
proof (intro conjI impI)
  have s: "step < 2 ^ 53" and tw: "t + w * step < 2 ^ 53"
    using assms(5,6) by (simp_all add: maxSafeInteger_def)
  assume "generateTOTP hmac secret (num (t - k * step)) (num step) digits algorithm = Inr tok"
  then have "generateTOTP hmac secret (num (t + (- k) * step)) (num step) digits algorithm
      = Inr tok"
    by simp
  then have "verify_for hmac secret tok (num t) (num w) (num step) digits algorithm (num (- w))
      = Some (Inr True)"
    using assms(4) by (intro verify_for_hit [OF assms(1,2) s assms(3) tw, where j = "- k"]) auto
  then show "verifyTOTP hmac secret tok (num t) (num w) (num step) digits algorithm
      = Some (Inr True)"
    by (simp add: verifyTOTP_def jsNeg_num)
next
  have "0 \<le> w * step" using assms(2,3) by simp
  then have "\<bar>t\<bar> < 2 ^ 53"
    using assms(1,6) by (simp add: maxSafeInteger_def)
  then have d: "isDouble (num t)" by (rule isDouble_num)
  assume "generateTOTP hmac secret (num t) (num step) digits algorithm = Inr tok0"
  then show "verifyTOTP hmac secret tok0 (num t) (num 0) (num step) digits algorithm
      = Some (Inr True)"
    by (simp add: verifyTOTP_window0 [OF d])
qed

text \<open>
  An infinite time stamp or step makes \<open>BigInt\<close> throw as soon as the secret is decoded.
\<close>

lemma generateTOTP_infinite:
  assumes "base32Decode secret = Inr key" and "ts = NegInf \<or> ts = PosInf" and "0 < b"
  shows "generateTOTP hmac secret ts (num b) digits algorithm = Inl BigIntRangeError"
  using assms by (auto simp: generateTOTP_def num_def)

subsection \<open>Normalisation of the candidate token\<close>

lemma normalizeToken_idem: "normalizeToken (normalizeToken t) = normalizeToken t"
  by (simp add: normalizeToken_def)

lemma normalizeToken_nonempty: "normalizeToken t \<noteq> [] \<Longrightarrow> t \<noteq> []"
  by (auto simp: normalizeToken_def)

lemma verifyToken_checked_normalize:
  assumes "normalizeToken t \<noteq> []"
  shows "verifyToken_checked hmac secret (normalizeToken t) ts w step d alg
       = verifyToken_checked hmac secret t ts w step d alg"
  using assms normalizeToken_nonempty [OF assms]
  by (simp add: verifyToken_checked_def normalizeToken_idem)

text \<open>
  Claim C9, as amended. For every candidate token \<open>t\<close> that is not empty once its white
  space and hyphens are removed, \<open>verifyToken\<close> on \<open>t\<close> gives the same result as
  \<open>verifyToken\<close> on \<open>t\<close> with those characters removed, in both call forms. The token
  that is generated is compared as it is: with window 0, and the clock a double, the
  result is the equality of the normalised candidate and the generated token.
\<close>

theorem verifyToken_normalizes:
  assumes "normalizeToken t \<noteq> []"
  shows "verifyToken hmac now (Options (opts\<lparr>opt_token := t\<rparr>)) None
           = verifyToken hmac now (Options (opts\<lparr>opt_token := normalizeToken t\<rparr>)) None
       \<and> verifyToken hmac now (Secret s) (Some t)
           = verifyToken hmac now (Secret s) (Some (normalizeToken t))
       \<and> (s \<noteq> [] \<and> isDouble now \<and> generateTOTP hmac s now (num 30) 6 ''SHA-1'' = Inr e \<longrightarrow>
            verifyToken hmac now
              (Options \<lparr>opt_secret = s, opt_step = None, opt_digits = None, opt_algorithm = None,
                 opt_timestamp = None, opt_token = t, opt_window = Some (num 0)\<rparr>) None
              = Some (Inr (normalizeToken t = e)))"
proof (intro conjI impI)
  have ne: "t \<noteq> []" using normalizeToken_nonempty [OF assms] .
  show "verifyToken hmac now (Options (opts\<lparr>opt_token := t\<rparr>)) None
      = verifyToken hmac now (Options (opts\<lparr>opt_token := normalizeToken t\<rparr>)) None"
    by (simp add: verifyToken_def verifyToken_checked_normalize [OF assms])
  show "verifyToken hmac now (Secret s) (Some t)
      = verifyToken hmac now (Secret s) (Some (normalizeToken t))"
    using assms ne by (simp add: verifyToken_def verifyToken_checked_normalize [OF assms])
  assume "s \<noteq> [] \<and> isDouble now \<and> generateTOTP hmac s now (num 30) 6 ''SHA-1'' = Inr e"
  then show "verifyToken hmac now
      (Options \<lparr>opt_secret = s, opt_step = None, opt_digits = None, opt_algorithm = None,
         opt_timestamp = None, opt_token = t, opt_window = Some (num 0)\<rparr>) None
      = Some (Inr (normalizeToken t = e))"
    using ne
    by (simp add: verifyToken_def verifyToken_checked_def orNumber_def orNum_def orStr_def
        verifyTOTP_window0)
qed

lemma verify_for_empty_token:
  assumes b: "0 \<le> t" "0 < step" "step < 2 ^ 53" "0 \<le> w" "t + w * step < 2 ^ 53"
    and ok: "generateTOTP hmac secret (num t) (num step) digits algorithm = Inr tok"
    and "w + 1 < 2 ^ 53" and "- w \<le> i"
  shows "verify_for hmac secret [] (num t) (num w) (num step) digits algorithm (num i)
     = Some (Inr False)"
  using assms(8)
proof (induction "nat (w + 1 - i)" arbitrary: i)
  case 0
  then show ?case by (subst verify_for.simps) (simp add: jsLe_num)
next
  case (Suc n)
  then have le: "i \<le> w" and ge: "- w \<le> i" by simp_all
  have adj: "jsAdd (num t) (jsMul (num i) (num step)) = num (t + i * step)"
    using ge le by (intro adjusted_num [OF b(1,2,4,5)])
  have nxt: "jsAdd (num i) (num 1) = num (i + 1)"
    using ge le assms(7) by (intro jsAdd_num) simp
  have "0 \<le> w * step" using b(2,4) by simp
  then have "\<bar>t\<bar> < 2 ^ 53" using b(1,5) by simp
  moreover have "\<bar>t + i * step\<bar> < 2 ^ 53"
    using ge le by (intro window_range(2) [OF b(1,2,4,5)])
  ultimately obtain e
    where e: "generateTOTP hmac secret (num (t + i * step)) (num step) digits algorithm = Inr e"
    using generateTOTP_returns_any [OF ok _ _ b(2,3)] by blast
  have ne: "e \<noteq> []" using e by (rule generateTOTP_nonempty)
  have rec: "verify_for hmac secret [] (num t) (num w) (num step) digits algorithm (num (i + 1))
      = Some (Inr False)"
    using Suc(1) [of "i + 1"] Suc(2) ge by simp
  show ?case
    using e le rec ne
    by (subst verify_for.simps)
      (simp add: jsLe_num adj nxt constantTimeCompare_eq eq_commute [of "[]"])
qed

subsection \<open>Zero in the options objects\<close>

text \<open>
  Claim C10. In the options form of \<open>generateToken\<close> and of \<open>verifyToken\<close> a time stamp,
  a step or a number of digits equal to 0 is treated as an absent field: the call with
  0 equals the call without the field, and with all three equal to 0 the values used
  are the current time, 30 and 6. A window of 0 is passed on as 0, where an absent window
  is 1.
\<close>

theorem options_zero_is_default:
  "generateToken hmac now (Options (opts\<lparr>opt_timestamp := Some (num 0)\<rparr>))
     = generateToken hmac now (Options (opts\<lparr>opt_timestamp := None\<rparr>))
   \<and> generateToken hmac now (Options (opts\<lparr>opt_step := Some (num 0)\<rparr>))
     = generateToken hmac now (Options (opts\<lparr>opt_step := None\<rparr>))
   \<and> generateToken hmac now (Options (opts\<lparr>opt_digits := Some 0\<rparr>))
     = generateToken hmac now (Options (opts\<lparr>opt_digits := None\<rparr>))
   \<and> verifyToken hmac now (Options (vopts\<lparr>opt_timestamp := Some (num 0)\<rparr>)) tok
     = verifyToken hmac now (Options (vopts\<lparr>opt_timestamp := None\<rparr>)) tok
   \<and> verifyToken hmac now (Options (vopts\<lparr>opt_step := Some (num 0)\<rparr>)) tok
     = verifyToken hmac now (Options (vopts\<lparr>opt_step := None\<rparr>)) tok
   \<and> verifyToken hmac now (Options (vopts\<lparr>opt_digits := Some 0\<rparr>)) tok
     = verifyToken hmac now (Options (vopts\<lparr>opt_digits := None\<rparr>)) tok
   \<and> generateToken hmac now
       (Options \<lparr>opt_secret = s, opt_step = Some (num 0), opt_digits = Some 0,
          opt_algorithm = alg, opt_timestamp = Some (num 0)\<rparr>)
     = (if s = [] then Inl SecretRequired
        else generateTOTP hmac s now (num 30) 6 (orStr alg ''SHA-1''))
   \<and> verifyToken hmac now
       (Options \<lparr>opt_secret = s, opt_step = Some (num 0), opt_digits = Some 0,
          opt_algorithm = alg, opt_timestamp = Some (num 0), opt_token = t,
          opt_window = Some (num 0)\<rparr>) tok
     = (if s = [] \<or> t = [] then Some (Inl SecretAndTokenRequired)
        else verifyTOTP hmac s (normalizeToken t) now (num 0) (num 30) 6 (orStr alg ''SHA-1''))
   \<and> verifyToken hmac now
       (Options \<lparr>opt_secret = s, opt_step = Some (num 0), opt_digits = Some 0,
          opt_algorithm = alg, opt_timestamp = Some (num 0), opt_token = t,
          opt_window = None\<rparr>) tok
     = (if s = [] \<or> t = [] then Some (Inl SecretAndTokenRequired)
        else verifyTOTP hmac s (normalizeToken t) now (num 1) (num 30) 6 (orStr alg ''SHA-1''))"
  by (simp add: generateToken_def verifyToken_def verifyToken_checked_def orNumber_def
      orNum_def num_def)

subsection \<open>The Base32 codec\<close>

text \<open>
  The decoder with its output as a list (\<open>dec_steps\<close>) against the decoder of the program,
  which writes into a buffer allocated beforehand: when the buffer is long enough for the
  bytes emitted, the first \<open>index\<close> bytes of the buffer are the list.
\<close>

lemma dec_steps_prefix:
  "dec_steps bits v out s = Inr (bits', v', out') \<Longrightarrow> length out \<le> length out'"
proof (induction s arbitrary: bits v out)
  case Nil
  then show ?case by simp
next
  case (Cons c s)
  show ?case
  proof (cases "bits + 5 \<ge> 8")
    case True
    with Cons.prems obtain x w where "dec_steps (bits + 5 - 8) w (out @ [x]) s = Inr (bits', v', out')"
      by (auto simp: Let_def split: if_splits)
    from Cons.IH [OF this] show ?thesis by simp
  next
    case False
    with Cons.prems obtain w where "dec_steps (bits + 5) w out s = Inr (bits', v', out')"
      by (auto simp: Let_def split: if_splits)
    from Cons.IH [OF this] show ?thesis .
  qed
qed

lemma indexOf_codeUnits: "indexOf (codeUnits xs) (of_char c) = indexOf xs c"
  by (induction xs) (simp_all add: codeUnits_def)

lemma dec_for_steps:
  assumes "dec_steps bits v out s = Inr (bits', v', out')"
    and "take index buf = out" and "index = length out" and "length out' \<le> length buf"
  shows "\<exists>buf'. dec_for bits v index buf (codeUnits s) = Inr (length out', buf')
           \<and> take (length out') buf' = out' \<and> length buf' = length buf"
  using assms
proof (induction s arbitrary: bits v out index buf)
  case Nil
  then show ?case by (auto simp: codeUnits_def)
next
  case (Cons c s)
  define ci where "ci = indexOf BASE32_CHARS c"
  define w where "w = push_bit 5 v OR (word_of_int ci :: int32)"
  have cu: "codeUnits (c # s) = of_char c # codeUnits s"
    "indexOf (codeUnits BASE32_CHARS) (of_char c) = ci"
    by (simp_all add: codeUnits_def [of "c # s"] codeUnits_def [of s] indexOf_codeUnits ci_def)
  have valid: "ci \<noteq> - 1"
    using Cons.prems(1) by (auto simp: ci_def Let_def split: if_splits)
  show ?case
  proof (cases "bits + 5 \<ge> 8")
    case True
    define x :: byte where "x = ucast (drop_bit (bits + 5 - 8) w AND 255)"
    have st: "dec_steps (bits + 5 - 8) w (out @ [x]) s = Inr (bits', v', out')"
      using Cons.prems(1) valid True by (simp add: ci_def w_def x_def Let_def)
    have "length (out @ [x]) \<le> length out'"
      using dec_steps_prefix [OF st] .
    then have lt: "index < length buf"
      using Cons.prems(3,4) by simp
    have tk: "take (index + 1) (buf[index := x]) = out @ [x]"
      using lt Cons.prems(2) by (simp add: take_Suc_conv_app_nth)
    have "\<exists>buf'. dec_for (bits + 5 - 8) w (index + 1) (buf[index := x]) (codeUnits s)
             = Inr (length out', buf')
           \<and> take (length out') buf' = out' \<and> length buf' = length (buf[index := x])"
      using Cons.IH [OF st tk] Cons.prems(3,4) by simp
    then show ?thesis
      using valid True by (simp add: cu ci_def w_def x_def Let_def)
  next
    case False
    have st: "dec_steps (bits + 5) w out s = Inr (bits', v', out')"
      using Cons.prems(1) valid False by (simp add: ci_def w_def Let_def)
    have "\<exists>buf'. dec_for (bits + 5) w index buf (codeUnits s) = Inr (length out', buf')
           \<and> take (length out') buf' = out' \<and> length buf' = length buf"
      using Cons.IH [OF st Cons.prems(2,3,4)] .
    then show ?thesis
      using valid False by (simp add: cu ci_def w_def Let_def)
  qed
qed

lemma dec_steps_append:
  "dec_steps bits v out (s @ t) =
     (case dec_steps bits v out s of
        Inl e \<Rightarrow> Inl e
      | Inr (bits', v', out') \<Rightarrow> dec_steps bits' v' out' t)"
  by (induction s arbitrary: bits v out) (simp_all add: Let_def)

text \<open>A text of alphabet characters always decodes; the number of bytes emitted.\<close>

lemma dec_steps_count:
  assumes "\<forall>c \<in> set s. indexOf BASE32_CHARS c \<noteq> - 1" and "bits < 8"
  shows "\<exists>v' out'. dec_steps bits v out s = Inr ((bits + 5 * length s) mod 8, v', out')
           \<and> length out' = length out + (bits + 5 * length s) div 8"
  using assms
proof (induction s arbitrary: bits v out)
  case Nil
  then show ?case by simp
next
  case (Cons c s)
  define w where "w = push_bit 5 v OR (word_of_int (indexOf BASE32_CHARS c) :: int32)"
  have valid: "indexOf BASE32_CHARS c \<noteq> - 1" and rest: "\<forall>c \<in> set s. indexOf BASE32_CHARS c \<noteq> - 1"
    using Cons.prems(1) by auto
  show ?case
  proof (cases "bits + 5 \<ge> 8")
    case True
    define x :: byte where "x = ucast (drop_bit (bits + 5 - 8) w AND 255)"
    have b: "bits + 5 - 8 < 8" using Cons.prems(2) by simp
    have m: "bits + 5 * length (c # s) = (bits + 5 - 8 + 5 * length s) + 8"
      using True by simp
    have e1: "(bits + 5 - 8 + 5 * length s) mod 8 = (bits + 5 * length (c # s)) mod 8"
      unfolding m by simp
    have e2: "length (out @ [x]) + (bits + 5 - 8 + 5 * length s) div 8
        = length out + (bits + 5 * length (c # s)) div 8"
      unfolding m by simp
    show ?thesis
      using Cons.IH [OF rest b, of w "out @ [x]"] valid True
      unfolding e1 e2 by (simp add: w_def x_def Let_def del: length_append)
  next
    case False
    then have b: "bits + 5 < 8" by simp
    show ?thesis
      using Cons.IH [OF rest b, of w out] valid False
      by (simp add: w_def Let_def add.assoc)
  qed
qed

text \<open>The alphabet: \<open>indexOf\<close> inverts the indexing of \<open>BASE32_CHARS\<close>.\<close>

lemma BASE32_CHARS_length: "length BASE32_CHARS = 32"
  by (simp add: BASE32_CHARS_def)

lemma BASE32_CHARS_distinct: "distinct BASE32_CHARS"
  by (simp add: BASE32_CHARS_def)

lemma indexOf_absent: "indexOf xs c = - 1 \<longleftrightarrow> c \<notin> set xs"
proof (induction xs)
  case Nil
  then show ?case by simp
next
  case (Cons x xs)
  have "0 \<le> indexOf xs c \<or> indexOf xs c = - 1" for xs
    by (induction xs) (auto simp: Let_def)
  from this [of xs] Cons show ?case
    by (auto simp: Let_def)
qed

lemma indexOf_nth:
  "distinct xs \<Longrightarrow> k < length xs \<Longrightarrow> indexOf xs (xs ! k) = int k"
proof (induction xs arbitrary: k)
  case Nil
  then show ?case by simp
next
  case (Cons x xs)
  show ?case
  proof (cases k)
    case 0
    then show ?thesis by simp
  next
    case (Suc j)
    with Cons.prems have j: "j < length xs" and d: "distinct xs" and nx: "xs ! j \<noteq> x"
      by auto
    from Cons.IH [OF d j] nx Suc show ?thesis
      by (auto simp: Let_def)
  qed
qed

lemma and_31: "(x :: int32) AND 31 = take_bit 5 x"
  by (simp add: take_bit_eq_mask mask_eq_exp_minus_1)

lemma and_255: "(x :: int32) AND 255 = take_bit 8 x"
  by (simp add: take_bit_eq_mask mask_eq_exp_minus_1)

lemma unat_and_31: "unat ((x :: int32) AND 31) < 32"
proof -
  have "x AND 31 \<le> 31" by (rule word_and_le1)
  then show ?thesis by (simp add: word_le_nat_alt)
qed

lemma base32_char_in: "BASE32_CHARS ! unat ((x :: int32) AND 31) \<in> set BASE32_CHARS"
  using unat_and_31 [of x] by (simp add: BASE32_CHARS_length)

lemma indexOf_base32_char:
  "indexOf BASE32_CHARS (BASE32_CHARS ! unat ((x :: int32) AND 31)) = int (unat (x AND 31))"
  using unat_and_31 [of x]
  by (intro indexOf_nth BASE32_CHARS_distinct) (simp add: BASE32_CHARS_length)

lemma dec_steps_char:
  "dec_steps bits v out (BASE32_CHARS ! unat ((x :: int32) AND 31) # rest) =
     (if bits + 5 \<ge> 8
      then dec_steps (bits + 5 - 8) (push_bit 5 v OR take_bit 5 x)
             (out @ [ucast (take_bit 8 (drop_bit (bits + 5 - 8) (push_bit 5 v OR take_bit 5 x)))]) rest
      else dec_steps (bits + 5) (push_bit 5 v OR take_bit 5 x) out rest)"
proof -
  have "0 \<le> int (unat (x AND 31))"
    by (rule of_nat_0_le_iff)
  then have "int (unat (x AND 31)) \<noteq> - 1"
    by linarith
  then have i: "(indexOf BASE32_CHARS (BASE32_CHARS ! unat (x AND 31)) = - 1) = False"
    unfolding indexOf_base32_char by (rule eq_False [THEN iffD2])
  have w: "(word_of_int (indexOf BASE32_CHARS (BASE32_CHARS ! unat (x AND 31))) :: int32)
      = take_bit 5 x"
    by (simp only: indexOf_base32_char) (simp add: and_31)
  show ?thesis
    by (simp only: dec_steps.simps Let_def i w if_False and_255)
qed

text \<open>The number of characters that the encoder emits, all of them from the alphabet.\<close>

lemma encWhile_count:
  "\<exists>out'. encWhile n v out = (n mod 5, out') \<and> length out' = length out + n div 5
     \<and> (set out \<subseteq> set BASE32_CHARS \<longrightarrow> set out' \<subseteq> set BASE32_CHARS)"
proof (induction n v out rule: encWhile.induct)
  case (1 bits v outp)
  show ?case
  proof (cases "bits \<ge> 5")
    case True
    have m: "bits = (bits - 5) + 5" using True by simp
    have e1: "bits mod 5 = (bits - 5) mod 5" by (subst m) simp
    have e2: "bits div 5 = (bits - 5) div 5 + 1" by (subst m) simp
    from 1 [OF True] True show ?thesis
      by (subst encWhile.simps) (auto simp: e1 e2 base32_char_in)
  next
    case False
    then show ?thesis by (subst encWhile.simps) simp
  qed
qed

lemma encFor_count:
  assumes "bits < 5"
  shows "\<exists>v' out'. encFor bits v out bs = ((bits + 8 * length bs) mod 5, v', out')
     \<and> length out' = length out + (bits + 8 * length bs) div 5
     \<and> (set out \<subseteq> set BASE32_CHARS \<longrightarrow> set out' \<subseteq> set BASE32_CHARS)"
  using assms
proof (induction bs arbitrary: bits v out)
  case Nil
  then show ?case by simp
next
  case (Cons b bs)
  define w where "w = push_bit 8 v OR (ucast b :: int32)"
  obtain out1 where w1: "encWhile (bits + 8) w out = ((bits + 8) mod 5, out1)"
    and l1: "length out1 = length out + (bits + 8) div 5"
    and s1: "set out \<subseteq> set BASE32_CHARS \<longrightarrow> set out1 \<subseteq> set BASE32_CHARS"
    using encWhile_count [of "bits + 8" w out] by blast
  have lt: "(bits + 8) mod 5 < 5" by simp
  obtain v' out' where r: "encFor ((bits + 8) mod 5) w out1 bs
        = (((bits + 8) mod 5 + 8 * length bs) mod 5, v', out')"
    and l2: "length out' = length out1 + ((bits + 8) mod 5 + 8 * length bs) div 5"
    and s2: "set out1 \<subseteq> set BASE32_CHARS \<longrightarrow> set out' \<subseteq> set BASE32_CHARS"
    using Cons.IH [OF lt, of w out1] by blast
  have e1: "((bits + 8) mod 5 + 8 * length bs) mod 5 = (bits + 8 * length (b # bs)) mod 5"
    by (simp add: mod_simps add.assoc)
  have e2: "(bits + 8) div 5 + ((bits + 8) mod 5 + 8 * length bs) div 5
      = (bits + 8 * length (b # bs)) div 5"
  proof -
    have "bits + 8 * length (b # bs) = ((bits + 8) mod 5 + 8 * length bs) + (bits + 8) div 5 * 5"
      by simp
    also have "\<dots> div 5 = (bits + 8) div 5 + ((bits + 8) mod 5 + 8 * length bs) div 5"
      by (rule div_mult_self1) simp
    finally show ?thesis by simp
  qed
  have "encFor bits v out (b # bs) = ((bits + 8 * length (b # bs)) mod 5, v', out')"
    using w1 r unfolding e1 by (simp add: w_def [symmetric] del: length_Cons)
  moreover have "length out' = length out + (bits + 8 * length (b # bs)) div 5"
    using l1 l2 unfolding e2 [symmetric] by simp
  ultimately show ?case
    using s1 s2 by blast
qed

text \<open>
  The identities between the accumulators of the two loops, one for each number of pending
  bits. Two bytes are equal when their eight bits are; the bits of each side are computed
  by rewriting. The accumulators are 32-bit words that are never reduced: only their low
  bits, at most twelve, are ever read.
\<close>

lemma byte_bit_hi: "8 \<le> m \<Longrightarrow> \<not> bit (b :: byte) m"
  using bit_imp_le_length [of b m] by auto

lemma byte_index_cases:
  assumes "n < LENGTH(8)"
  obtains "n = 0" | "n = 1" | "n = 2" | "n = 3" | "n = 4" | "n = 5" | "n = 6" | "n = (7::nat)"
  using assms by (simp add: less_Suc_eq eval_nat_numeral) blast

lemma byte_eq_bits:
  fixes a b :: byte
  shows "a = b \<longleftrightarrow>
    bit a 0 = bit b 0 \<and> bit a 1 = bit b 1 \<and> bit a 2 = bit b 2 \<and> bit a 3 = bit b 3 \<and>
    bit a 4 = bit b 4 \<and> bit a 5 = bit b 5 \<and> bit a 6 = bit b 6 \<and> bit a 7 = bit b 7"
proof
  assume r: "bit a 0 = bit b 0 \<and> bit a 1 = bit b 1 \<and> bit a 2 = bit b 2 \<and> bit a 3 = bit b 3 \<and>
    bit a 4 = bit b 4 \<and> bit a 5 = bit b 5 \<and> bit a 6 = bit b 6 \<and> bit a 7 = bit b 7"
  show "a = b"
  proof (rule bit_word_eqI)
    fix n assume "n < LENGTH(8)"
    then show "bit a n = bit b n"
      using r by (cases rule: byte_index_cases) simp_all
  qed
qed simp

lemma bit_times2:
  "bit ((a :: int32) * 2) n \<longleftrightarrow> bit a (n - 1) \<and> n \<noteq> 0 \<and> n < 32"
  using bit_double_iff [of a n] by (auto simp: mult.commute)

lemma even_bit0: "even (a :: int32) \<longleftrightarrow> \<not> bit a 0"
  by (simp add: bit_0)

lemmas codec_defs = eacc_def dacc_def dbyte_def joined_def

lemmas codec_bits = byte_eq_bits bit_simps byte_bit_hi bit_times2 even_bit0
  numeral_2_eq_2 [symmetric] numeral_3_eq_3 [symmetric]

lemma join_0: "joined 3 (dacc dv (drop_bit 3 (eacc ev b))) (eacc ev b) = b"
  unfolding codec_defs by (simp add: codec_bits)

lemma emit_1: "dbyte 4 (dacc dv (drop_bit 4 (eacc ev b))) = joined 1 dv ev"
  unfolding codec_defs by (simp add: codec_bits)

lemma join_1: "joined 4 (dacc dv (drop_bit 4 (eacc ev b))) (eacc ev b) = b"
  unfolding codec_defs by (simp add: codec_bits)

lemma emit_2: "dbyte 3 (dacc dv (drop_bit 5 (eacc ev b))) = joined 2 dv ev"
  unfolding codec_defs by (simp add: codec_bits)

lemma join_2: "dbyte 0 (dacc (dacc dv (drop_bit 5 (eacc ev b))) (eacc ev b)) = b"
  unfolding codec_defs by (simp add: codec_bits)

lemma emit_3: "dbyte 2 (dacc dv (drop_bit 6 (eacc ev b))) = joined 3 dv ev"
  unfolding codec_defs by (simp add: codec_bits)

lemma join_3: "joined 1 (dacc (dacc dv (drop_bit 6 (eacc ev b))) (drop_bit 1 (eacc ev b))) (eacc ev b) = b"
  unfolding codec_defs by (simp add: codec_bits)

lemma emit_4: "dbyte 1 (dacc dv (drop_bit 7 (eacc ev b))) = joined 4 dv ev"
  unfolding codec_defs by (simp add: codec_bits)

lemma join_4: "joined 2 (dacc (dacc dv (drop_bit 7 (eacc ev b))) (drop_bit 2 (eacc ev b))) (eacc ev b) = b"
  unfolding codec_defs by (simp add: codec_bits)

lemma flush_1: "dbyte 4 (dacc dv (push_bit 4 ev)) = joined 1 dv ev"
  unfolding codec_defs by (simp add: codec_bits)

lemma flush_2: "dbyte 3 (dacc dv (push_bit 3 ev)) = joined 2 dv ev"
  unfolding codec_defs by (simp add: codec_bits)

lemma flush_3: "dbyte 2 (dacc dv (push_bit 2 ev)) = joined 3 dv ev"
  unfolding codec_defs by (simp add: codec_bits)

lemma flush_4: "dbyte 1 (dacc dv (push_bit 1 ev)) = joined 4 dv ev"
  unfolding codec_defs by (simp add: codec_bits)

text \<open>Ceiling and floor of the quotients, as integer divisions.\<close>

lemma ceil_8_5: "\<lceil>real n * 8 / 5\<rceil> = int ((8 * n + 4) div 5)"
proof -
  have "real n * 8 / 5 = of_int (int (8 * n)) / of_int 5" by simp
  then have "\<lceil>real n * 8 / 5\<rceil> = - (- int (8 * n) div 5)"
    by (simp only: ceiling_divide_eq_div)
  also have "\<dots> = int ((8 * n + 4) div 5)"
    by (simp add: zdiv_int)
  finally show ?thesis .
qed

lemma floor_5_8: "\<lfloor>real n * 5 / 8\<rfloor> = int ((5 * n) div 8)"
proof -
  have "real n * 5 / 8 = of_nat (5 * n) / of_nat 8" by simp
  then show ?thesis by (simp only: floor_divide_of_nat_eq)
qed

text \<open>
  The invariant \<open>codec_inv\<close> holds after every byte that the encoder reads: one case for
  each number of bits that were pending before the byte.
\<close>

lemma encFor_append:
  "encFor bits v out (bs @ cs) =
     (case encFor bits v out bs of (b1, v1, o1) \<Rightarrow> encFor b1 v1 o1 cs)"
  by (induction bs arbitrary: bits v out) (simp_all add: Let_def split: prod.splits)

lemma encFor_single:
  "encFor 0 ev eout [b] = (3, eacc ev b, eout @ [echr 3 (eacc ev b)])"
  "encFor 1 ev eout [b] = (4, eacc ev b, eout @ [echr 4 (eacc ev b)])"
  "encFor 2 ev eout [b] = (0, eacc ev b, eout @ [echr 5 (eacc ev b), echr 0 (eacc ev b)])"
  "encFor 3 ev eout [b] = (1, eacc ev b, eout @ [echr 6 (eacc ev b), echr 1 (eacc ev b)])"
  "encFor 4 ev eout [b] = (2, eacc ev b, eout @ [echr 7 (eacc ev b), echr 2 (eacc ev b)])"
  by (simp_all add: encWhile.simps echr_def Let_def flip: eacc_def)

lemma dec_steps_echr:
  "dec_steps bits v out (echr s w # rest) =
     (if bits + 5 \<ge> 8
      then dec_steps (bits + 5 - 8) (dacc v (drop_bit s w))
             (out @ [dbyte (bits + 5 - 8) (dacc v (drop_bit s w))]) rest
      else dec_steps (bits + 5) (dacc v (drop_bit s w)) out rest)"
  unfolding echr_def dacc_def dbyte_def by (rule dec_steps_char)

lemma dec_steps_fchr:
  "dec_steps bits v out (fchr e ev # rest) =
     (if bits + 5 \<ge> 8
      then dec_steps (bits + 5 - 8) (dacc v (push_bit (5 - e) ev))
             (out @ [dbyte (bits + 5 - 8) (dacc v (push_bit (5 - e) ev))]) rest
      else dec_steps (bits + 5) (dacc v (push_bit (5 - e) ev)) out rest)"
  unfolding fchr_def dacc_def dbyte_def by (rule dec_steps_char)

lemmas codec_ids = join_0 emit_1 join_1 emit_2 join_2 emit_3 join_3 emit_4 join_4
  flush_1 flush_2 flush_3 flush_4

lemmas codec_ids' = codec_ids codec_ids [unfolded One_nat_def]

lemma codec_inv_step:
  assumes "codec_inv bs e ev eout" and "encFor e ev eout [b] = (e', ev', eout')"
  shows "codec_inv (bs @ [b]) e' ev' eout'"
proof -
  from assms(1) have e: "e < 5" by (simp add: codec_inv_def)
  then consider "e = 0" | "e = 1" | "e = 2" | "e = 3" | "e = 4" by linarith
  then show ?thesis
  proof cases
    case 1
    with assms obtain dv where d: "dec_steps 0 0 [] eout = Inr (0, dv, bs)"
      by (auto simp: codec_inv_def)
    from assms(2) [unfolded 1 encFor_single(1)] have r: "e' = 3" "ev' = eacc ev b" "eout' = eout @ [echr 3 (eacc ev b)]"
      by auto
    show ?thesis
      unfolding r codec_inv_def
      by (simp add: dec_steps_append d dec_steps_echr codec_ids' del: dec_steps.simps(2))
  next
    case 2
    with assms obtain dv where d: "dec_steps 0 0 [] eout = Inr (7, dv, butlast bs)"
      and l: "last bs = joined 1 dv ev" and ne: "bs \<noteq> []"
      by (auto simp: codec_inv_def)
    from assms(2) [unfolded 2 encFor_single(2)] have r: "e' = 4" "ev' = eacc ev b" "eout' = eout @ [echr 4 (eacc ev b)]"
      by auto
    show ?thesis
      unfolding r codec_inv_def using ne
      by (simp add: dec_steps_append d dec_steps_echr codec_ids' l [symmetric] l [symmetric, unfolded One_nat_def]
          del: dec_steps.simps(2))
  next
    case 3
    with assms obtain dv where d: "dec_steps 0 0 [] eout = Inr (6, dv, butlast bs)"
      and l: "last bs = joined 2 dv ev" and ne: "bs \<noteq> []"
      by (auto simp: codec_inv_def)
    from assms(2) [unfolded 3 encFor_single(3)] have r: "e' = 0" "ev' = eacc ev b"
        "eout' = eout @ [echr 5 (eacc ev b), echr 0 (eacc ev b)]"
      by auto
    show ?thesis
      unfolding r codec_inv_def using ne
      by (simp add: dec_steps_append d dec_steps_echr codec_ids' l [symmetric]
          del: dec_steps.simps(2))
  next
    case 4
    with assms obtain dv where d: "dec_steps 0 0 [] eout = Inr (5, dv, butlast bs)"
      and l: "last bs = joined 3 dv ev" and ne: "bs \<noteq> []"
      by (auto simp: codec_inv_def)
    from assms(2) [unfolded 4 encFor_single(4)] have r: "e' = 1" "ev' = eacc ev b"
        "eout' = eout @ [echr 6 (eacc ev b), echr 1 (eacc ev b)]"
      by auto
    show ?thesis
      unfolding r codec_inv_def using ne
      by (simp add: dec_steps_append d dec_steps_echr codec_ids' l [symmetric]
          del: dec_steps.simps(2))
  next
    case 5
    with assms obtain dv where d: "dec_steps 0 0 [] eout = Inr (4, dv, butlast bs)"
      and l: "last bs = joined 4 dv ev" and ne: "bs \<noteq> []"
      by (auto simp: codec_inv_def)
    from assms(2) [unfolded 5 encFor_single(5)] have r: "e' = 2" "ev' = eacc ev b"
        "eout' = eout @ [echr 7 (eacc ev b), echr 2 (eacc ev b)]"
      by auto
    show ?thesis
      unfolding r codec_inv_def using ne
      by (simp add: dec_steps_append d dec_steps_echr codec_ids' l [symmetric]
          del: dec_steps.simps(2))
  qed
qed

lemma codec_inv_enc:
  "encFor 0 0 [] bs = (e, ev, eout) \<Longrightarrow> codec_inv bs e ev eout"
proof (induction bs arbitrary: e ev eout rule: rev_induct)
  case Nil
  then show ?case by (auto simp: codec_inv_def)
next
  case (snoc b bs)
  obtain e0 ev0 eout0 where s: "encFor 0 0 [] bs = (e0, ev0, eout0)"
    by (cases "encFor 0 0 [] bs") auto
  with snoc.prems have "encFor e0 ev0 eout0 [b] = (e, ev, eout)"
    by (simp add: encFor_append)
  with snoc.IH [OF s] show ?case by (rule codec_inv_step)
qed

text \<open>
  The characters of the alphabet are no white space and are kept by \<open>toUpperCase\<close>; a
  lower-case letter becomes a character of the alphabet.
\<close>

lemma base32_char_fixed:
  "c \<in> set BASE32_CHARS \<Longrightarrow> \<not> isSpace c \<and> toUpperUnits c = [of_char c]"
  by (auto simp: BASE32_CHARS_def isSpace_def toUpperUnits_def)

lemma lower_to_upper:
  "map toUpperUnits ''abcdefghijklmnopqrstuvwxyz''
     = map (\<lambda>c. [of_char c]) ''ABCDEFGHIJKLMNOPQRSTUVWXYZ''"
  by (simp add: toUpperUnits_def)

lemma base32_letter_upper:
  assumes "isBase32Letter c"
  shows "\<exists>c' \<in> set BASE32_CHARS. toUpperUnits c = [of_char c']"
proof -
  from assms consider "c \<in> set BASE32_CHARS" | "c \<in> set ''abcdefghijklmnopqrstuvwxyz''"
    unfolding isBase32Letter_def BASE32_CHARS_def by blast
  then show ?thesis
  proof cases
    case 1
    then show ?thesis using base32_char_fixed [of c] by blast
  next
    case 2
    then have "toUpperUnits c \<in> set (map toUpperUnits ''abcdefghijklmnopqrstuvwxyz'')"
      by (simp only: set_map) (rule imageI)
    then have "toUpperUnits c \<in> (\<lambda>c. [of_char c]) ` set ''ABCDEFGHIJKLMNOPQRSTUVWXYZ''"
      by (simp only: lower_to_upper set_map)
    then obtain c' where c': "c' \<in> set ''ABCDEFGHIJKLMNOPQRSTUVWXYZ''"
      and u: "toUpperUnits c = [of_char c']"
      by (rule imageE)
    have "set ''ABCDEFGHIJKLMNOPQRSTUVWXYZ'' \<subseteq> set BASE32_CHARS"
      by (simp add: BASE32_CHARS_def)
    with c' u show ?thesis by blast
  qed
qed

lemma toUpperCase_same_length:
  "length (concat (map toUpperUnits s)) = length s \<Longrightarrow>
     toUpperCase s = Inr (concat (map toUpperUnits s))"
  by (simp add: toUpperCase_def Let_def)

lemma base32_text_upper:
  assumes "\<forall>c \<in> set xs. isBase32Letter c"
  shows "\<exists>s. toUpperCase xs = Inr (codeUnits s) \<and> length s = length xs
           \<and> set s \<subseteq> set BASE32_CHARS"
proof -
  have "\<exists>s. concat (map toUpperUnits xs) = codeUnits s \<and> length s = length xs
           \<and> set s \<subseteq> set BASE32_CHARS"
    using assms
  proof (induction xs)
    case Nil
    then show ?case by (simp add: codeUnits_def)
  next
    case (Cons c xs)
    then obtain s where s: "concat (map toUpperUnits xs) = codeUnits s" "length s = length xs"
      "set s \<subseteq> set BASE32_CHARS"
      by auto
    obtain c' where c': "c' \<in> set BASE32_CHARS" "toUpperUnits c = [of_char c']"
      using base32_letter_upper [of c] Cons.prems by auto
    have "concat (map toUpperUnits (c # xs)) = codeUnits (c' # s)"
      using s(1) c'(2) by (simp add: codeUnits_def)
    moreover have "length (c' # s) = length (c # xs)" using s(2) by simp
    moreover have "set (c' # s) \<subseteq> set BASE32_CHARS" using s(3) c'(1) by simp
    ultimately show ?case by blast
  qed
  then obtain s where s: "concat (map toUpperUnits xs) = codeUnits s" "length s = length xs"
    "set s \<subseteq> set BASE32_CHARS"
    by blast
  have "length (concat (map toUpperUnits xs)) = length xs"
    by (simp add: s(1,2) codeUnits_def)
  then have "toUpperCase xs = Inr (codeUnits s)"
    using toUpperCase_same_length [of xs] s(1) by simp
  with s(2,3) show ?thesis by blast
qed

lemma base32_text_fixed:
  assumes "set s \<subseteq> set BASE32_CHARS"
  shows "toUpperCase (stripWhitespace s) = Inr (codeUnits s)"
proof -
  have "stripWhitespace s = s"
    unfolding stripWhitespace_def using assms
    by (intro filter_True) (auto dest: base32_char_fixed)
  moreover have "concat (map toUpperUnits s) = codeUnits s"
    using assms by (induction s) (auto simp: codeUnits_def dest: base32_char_fixed)
  moreover have "length (codeUnits s) = length s"
    by (simp add: codeUnits_def)
  ultimately show ?thesis
    using toUpperCase_same_length [of s] by simp
qed

text \<open>The encoder's result, its length, and the decoder run on it.\<close>

lemma fchr_in: "fchr e ev \<in> set BASE32_CHARS"
  unfolding fchr_def by (rule base32_char_in)

lemma encoded_eq:
  assumes "encFor 0 0 [] b = (e, ev, eout)"
  shows "encoded b = (if e > 0 then eout @ [fchr e ev] else eout)"
  using assms by (simp add: encoded_def fchr_def)

lemma encoded_length_nat:
  "length (encoded b) = (8 * length b + 4) div 5 \<and> set (encoded b) \<subseteq> set BASE32_CHARS"
proof -
  obtain ev eout where enc: "encFor 0 0 [] b = ((0 + 8 * length b) mod 5, ev, eout)"
    and len: "length eout = length ([] :: string) + (0 + 8 * length b) div 5"
    and sub: "set ([] :: string) \<subseteq> set BASE32_CHARS \<longrightarrow> set eout \<subseteq> set BASE32_CHARS"
    using encFor_count [of 0 0 "[]" b] by auto
  have "length (encoded b) = 8 * length b div 5 + (if 8 * length b mod 5 > 0 then 1 else 0)"
    using len by (simp add: encoded_eq [OF enc])
  also have "\<dots> = (8 * length b + 4) div 5"
    by presburger
  finally show ?thesis
    using sub fchr_in by (auto simp: encoded_eq [OF enc])
qed

lemma flush_4': "dbyte (Suc 0) (dacc dv (ev * 2)) = joined 4 dv ev"
  using flush_4 [of dv ev] by simp

lemma dec_steps_encode:
  "\<exists>bits v. dec_steps 0 0 [] (encoded b) = Inr (bits, v, b)"
proof -
  obtain e ev eout where enc: "encFor 0 0 [] b = (e, ev, eout)"
    by (cases "encFor 0 0 [] b") auto
  have inv: "codec_inv b e ev eout"
    using codec_inv_enc [OF enc] .
  then have "e < 5" by (simp add: codec_inv_def)
  then consider "e = 0" | "e = 1" | "e = 2" | "e = 3" | "e = 4" by linarith
  then show ?thesis
  proof cases
    case 1
    with inv show ?thesis
      by (auto simp: codec_inv_def encoded_eq [OF enc])
  next
    case 2
    with inv obtain dv where d: "dec_steps 0 0 [] eout = Inr (7, dv, butlast b)"
      and l: "last b = joined 1 dv ev" and ne: "b \<noteq> []"
      by (auto simp: codec_inv_def)
    show ?thesis
      using ne 2
      by (simp add: encoded_eq [OF enc] dec_steps_append d dec_steps_fchr codec_ids'
          l [symmetric] l [symmetric, unfolded One_nat_def] del: dec_steps.simps(2))
  next
    case 3
    with inv obtain dv where d: "dec_steps 0 0 [] eout = Inr (6, dv, butlast b)"
      and l: "last b = joined 2 dv ev" and ne: "b \<noteq> []"
      by (auto simp: codec_inv_def)
    show ?thesis
      using ne 3
      by (simp add: encoded_eq [OF enc] dec_steps_append d dec_steps_fchr codec_ids'
          l [symmetric] del: dec_steps.simps(2))
  next
    case 4
    with inv obtain dv where d: "dec_steps 0 0 [] eout = Inr (5, dv, butlast b)"
      and l: "last b = joined 3 dv ev" and ne: "b \<noteq> []"
      by (auto simp: codec_inv_def)
    show ?thesis
      using ne 4
      by (simp add: encoded_eq [OF enc] dec_steps_append d dec_steps_fchr codec_ids'
          l [symmetric] del: dec_steps.simps(2))
  next
    case 5
    with inv obtain dv where d: "dec_steps 0 0 [] eout = Inr (4, dv, butlast b)"
      and l: "last b = joined 4 dv ev" and ne: "b \<noteq> []"
      by (auto simp: codec_inv_def)
    show ?thesis
      using ne 5
      by (simp add: encoded_eq [OF enc] dec_steps_append d dec_steps_fchr codec_ids' flush_4'
          l [symmetric] del: dec_steps.simps(2))
  qed
qed

lemma base32Decode_steps:
  assumes "toUpperCase (stripWhitespace t) = Inr (codeUnits s)"
    and "dec_steps 0 0 [] s = Inr (bits, v, out)"
    and "length out \<le> (length s * 5 + 7) div 8"
  shows "base32Decode t = Inr out"
proof -
  define buf where "buf = replicate ((length s * 5 + 7) div 8) (0 :: byte)"
  have "\<exists>buf'. dec_for 0 0 0 buf (codeUnits s) = Inr (length out, buf')
      \<and> take (length out) buf' = out \<and> length buf' = length buf"
    using assms(2,3) by (intro dec_for_steps [where out = "[]"]) (simp_all add: buf_def)
  moreover have "length (codeUnits s) = length s"
    by (simp add: codeUnits_def)
  ultimately show ?thesis
    by (auto simp: base32Decode_def Let_def assms(1) buf_def [symmetric])
qed

lemma base32_roundtrip: "base32Decode (encoded b) = Inr b"
proof -
  obtain bits v where d: "dec_steps 0 0 [] (encoded b) = Inr (bits, v, b)"
    using dec_steps_encode by blast
  have fixed: "toUpperCase (stripWhitespace (encoded b)) = Inr (codeUnits (encoded b))"
    using encoded_length_nat [of b] by (intro base32_text_fixed) simp
  have "length b \<le> (length (encoded b) * 5 + 7) div 8"
    using encoded_length_nat [of b] by simp
  then show ?thesis
    using fixed d by (intro base32Decode_steps [where bits = bits and v = v])
qed

lemma base32Decode_length_nat:
  assumes "\<forall>c \<in> set (stripWhitespace t). isBase32Letter c"
  shows "\<exists>out. base32Decode t = Inr out \<and> length out = (5 * length (stripWhitespace t)) div 8"
proof -
  obtain s where up: "toUpperCase (stripWhitespace t) = Inr (codeUnits s)"
    and len: "length s = length (stripWhitespace t)" and sub: "set s \<subseteq> set BASE32_CHARS"
    using base32_text_upper [OF assms] by blast
  have valid: "\<forall>c \<in> set s. indexOf BASE32_CHARS c \<noteq> - 1"
    using sub by (auto simp: indexOf_absent)
  obtain v out where d: "dec_steps 0 0 [] s = Inr ((0 + 5 * length s) mod 8, v, out)"
    and l: "length out = length ([] :: buffer) + (0 + 5 * length s) div 8"
    using dec_steps_count [OF valid, of 0 0 "[]"] by auto
  have "length out \<le> (length s * 5 + 7) div 8"
    using l by simp
  then have "base32Decode t = Inr out"
    using up d by (intro base32Decode_steps [where v = v])
  with l len show ?thesis by simp
qed

text \<open>
  The encoder of the program against the loops without the check: it throws exactly when
  the encoding is longer than the longest string, and returns the encoding otherwise.
\<close>

lemma enc_while_fits:
  assumes "length out + n div 5 \<le> maxStringLength"
  shows "enc_while n v out = Inr (encWhile n v out)"
  using assms
proof (induction n v out rule: encWhile.induct)
  case (1 bits v outp)
  show ?case
  proof (cases "bits \<ge> 5")
    case True
    have m: "bits = (bits - 5) + 5" using True by simp
    have e2: "bits div 5 = (bits - 5) div 5 + 1" by (subst m) simp
    have fit: "\<not> maxStringLength < length outp + 1"
      using 1(2) e2 by simp
    have "length (outp @ [BASE32_CHARS ! unat (drop_bit (bits - 5) v AND 31)])
        + (bits - 5) div 5 \<le> maxStringLength"
      using 1(2) e2 by simp
    from 1(1) [OF True this] True fit show ?thesis
      by (subst enc_while.simps, subst encWhile.simps) (simp add: appendChar_def)
  next
    case False
    then show ?thesis by (subst enc_while.simps, subst encWhile.simps) simp
  qed
qed

lemma enc_while_overflow:
  assumes "maxStringLength < length out + n div 5" and "length out \<le> maxStringLength"
  shows "enc_while n v out = Inl InvalidStringLength"
  using assms
proof (induction n v out rule: encWhile.induct)
  case (1 bits v outp)
  show ?case
  proof (cases "bits \<ge> 5")
    case True
    have m: "bits = (bits - 5) + 5" using True by simp
    have e2: "bits div 5 = (bits - 5) div 5 + 1" by (subst m) simp
    show ?thesis
    proof (cases "maxStringLength < length outp + 1")
      case over: True
      with True show ?thesis by (subst enc_while.simps) (simp add: appendChar_def)
    next
      case False
      have "maxStringLength
          < length (outp @ [BASE32_CHARS ! unat (drop_bit (bits - 5) v AND 31)])
            + (bits - 5) div 5"
        using 1(2) e2 by simp
      moreover have "length (outp @ [BASE32_CHARS ! unat (drop_bit (bits - 5) v AND 31)])
          \<le> maxStringLength"
        using False by simp
      ultimately show ?thesis
        using 1(1) [OF True] True False
        by (subst enc_while.simps) (simp add: appendChar_def)
    qed
  next
    case False
    then have "bits div 5 = 0" by simp
    with 1(2,3) show ?thesis by simp
  qed
qed

lemma div5_split:
  "(bits + 8) div 5 + ((bits + 8) mod 5 + 8 * n) div 5 = (bits + 8 * Suc n) div 5"
proof -
  have "bits + 8 * Suc n = ((bits + 8) mod 5 + 8 * n) + (bits + 8) div 5 * 5"
    by simp
  also have "\<dots> div 5 = (bits + 8) div 5 + ((bits + 8) mod 5 + 8 * n) div 5"
    by (rule div_mult_self1) simp
  finally show ?thesis by simp
qed

lemma enc_for_fits:
  assumes "bits < 5" and "length out + (bits + 8 * length bs) div 5 \<le> maxStringLength"
  shows "enc_for bits v out bs = Inr (encFor bits v out bs)"
  using assms
proof (induction bs arbitrary: bits v out)
  case Nil
  then show ?case by simp
next
  case (Cons b bs)
  define w where "w = push_bit 8 v OR (ucast b :: int32)"
  obtain out1 where w1: "encWhile (bits + 8) w out = ((bits + 8) mod 5, out1)"
    and l1: "length out1 = length out + (bits + 8) div 5"
    using encWhile_count [of "bits + 8" w out] by blast
  have tot: "length out + (bits + 8) div 5 + ((bits + 8) mod 5 + 8 * length bs) div 5
      \<le> maxStringLength"
    using Cons.prems(2) div5_split [of bits "length bs"] by simp
  then have "length out + (bits + 8) div 5 \<le> maxStringLength"
    by simp
  then have c1: "enc_while (bits + 8) w out = Inr ((bits + 8) mod 5, out1)"
    using enc_while_fits [of out "bits + 8" w] w1 by simp
  have "enc_for ((bits + 8) mod 5) w out1 bs = Inr (encFor ((bits + 8) mod 5) w out1 bs)"
    using tot l1 by (intro Cons.IH) simp_all
  then show ?case
    using c1 w1 by (simp add: w_def [symmetric])
qed

lemma enc_for_overflow:
  assumes "bits < 5" and "maxStringLength < length out + (bits + 8 * length bs) div 5"
    and "length out \<le> maxStringLength"
  shows "enc_for bits v out bs = Inl InvalidStringLength"
  using assms
proof (induction bs arbitrary: bits v out)
  case Nil
  then show ?case by simp
next
  case (Cons b bs)
  define w where "w = push_bit 8 v OR (ucast b :: int32)"
  show ?case
  proof (cases "maxStringLength < length out + (bits + 8) div 5")
    case True
    then have "enc_while (bits + 8) w out = Inl InvalidStringLength"
      using Cons.prems(3) by (rule enc_while_overflow)
    then show ?thesis by (simp add: w_def [symmetric])
  next
    case False
    obtain out1 where w1: "encWhile (bits + 8) w out = ((bits + 8) mod 5, out1)"
      and l1: "length out1 = length out + (bits + 8) div 5"
      using encWhile_count [of "bits + 8" w out] by blast
    have c1: "enc_while (bits + 8) w out = Inr ((bits + 8) mod 5, out1)"
      using enc_while_fits [of out "bits + 8" w] w1 False by simp
    have "maxStringLength < length out1 + ((bits + 8) mod 5 + 8 * length bs) div 5"
      using Cons.prems(2) div5_split [of bits "length bs"] l1 by simp
    moreover have "length out1 \<le> maxStringLength"
      using False l1 by simp
    ultimately have "enc_for ((bits + 8) mod 5) w out1 bs = Inl InvalidStringLength"
      by (intro Cons.IH) simp_all
    then show ?thesis
      using c1 by (simp add: w_def [symmetric])
  qed
qed

lemma ceil_split:
  "(8 * n + 4) div 5 = 8 * n div 5 + (if 8 * n mod 5 = 0 then 0 else 1)" for n :: nat
  by presburger

lemma base32Encode_fits:
  assumes "(8 * length b + 4) div 5 \<le> maxStringLength"
  shows "base32Encode b = Inr (encoded b)"
proof -
  obtain ev eout where enc: "encFor 0 0 [] b = ((0 + 8 * length b) mod 5, ev, eout)"
    and len: "length eout = length ([] :: string) + (0 + 8 * length b) div 5"
    using encFor_count [of 0 0 "[]" b] by auto
  have "8 * length b div 5 \<le> maxStringLength"
    using assms unfolding ceil_split by simp
  then have f: "enc_for 0 0 [] b = Inr (encFor 0 0 [] b)"
    by (intro enc_for_fits) simp_all
  show ?thesis
  proof (cases "8 * length b mod 5 = 0")
    case True
    with f enc show ?thesis by (simp add: base32Encode_def encoded_def)
  next
    case False
    then have "length eout + 1 \<le> maxStringLength"
      using assms len unfolding ceil_split by simp
    with False f enc show ?thesis
      by (simp add: base32Encode_def encoded_def appendChar_def)
  qed
qed

lemma base32Encode_overflow:
  assumes "maxStringLength < (8 * length b + 4) div 5"
  shows "base32Encode b = Inl InvalidStringLength"
proof (cases "maxStringLength < 8 * length b div 5")
  case True
  have "enc_for 0 0 [] b = Inl InvalidStringLength"
  proof (rule enc_for_overflow)
    show "(0 :: nat) < 5" by simp
    show "maxStringLength < length ([] :: string) + (0 + 8 * length b) div 5"
      using True by simp
    show "length ([] :: string) \<le> maxStringLength" by simp
  qed
  then show ?thesis by (simp add: base32Encode_def)
next
  case False
  obtain ev eout where enc: "encFor 0 0 [] b = ((0 + 8 * length b) mod 5, ev, eout)"
    and len: "length eout = length ([] :: string) + (0 + 8 * length b) div 5"
    using encFor_count [of 0 0 "[]" b] by auto
  have f: "enc_for 0 0 [] b = Inr (encFor 0 0 [] b)"
    using False by (intro enc_for_fits) simp_all
  have nz: "8 * length b mod 5 \<noteq> 0"
    using assms False unfolding ceil_split by (simp split: if_splits)
  then have "maxStringLength < length eout + 1"
    using assms len unfolding ceil_split by simp
  with nz f enc show ?thesis
    by (simp add: base32Encode_def appendChar_def)
qed

text \<open>
  Claim C2, as amended. For every byte sequence whose encoding is not longer than the
  longest string of the engine, \<open>base32Encode\<close> returns a text of \<open>ceil(n * 8 / 5)\<close>
  characters for \<open>n\<close> bytes, and decoding this text gives the byte sequence back; and
  every valid Base32 text (all its characters other than white space are symbols of the
  alphabet, in either case) with \<open>n\<close> characters after the removal of white space decodes,
  to \<open>floor(n * 5 / 8)\<close> bytes.
\<close>

theorem base32_roundtrip_and_lengths:
  "(\<lceil>real (length b) * 8 / 5\<rceil> \<le> int maxStringLength \<longrightarrow>
      (\<exists>s. base32Encode b = Inr s \<and> base32Decode s = Inr b
         \<and> int (length s) = \<lceil>real (length b) * 8 / 5\<rceil>))
   \<and> ((\<forall>c \<in> set (stripWhitespace t). isBase32Letter c) \<longrightarrow>
        (\<exists>out. base32Decode t = Inr out
           \<and> int (length out) = \<lfloor>real (length (stripWhitespace t)) * 5 / 8\<rfloor>))"
proof (intro conjI impI)
  assume "\<lceil>real (length b) * 8 / 5\<rceil> \<le> int maxStringLength"
  then have "(8 * length b + 4) div 5 \<le> maxStringLength"
    by (simp only: ceil_8_5 of_nat_le_iff)
  then have "base32Encode b = Inr (encoded b)"
    by (rule base32Encode_fits)
  moreover have "base32Decode (encoded b) = Inr b"
    by (rule base32_roundtrip)
  moreover have "int (length (encoded b)) = \<lceil>real (length b) * 8 / 5\<rceil>"
    using encoded_length_nat [of b] by (simp add: ceil_8_5)
  ultimately show "\<exists>s. base32Encode b = Inr s \<and> base32Decode s = Inr b
      \<and> int (length s) = \<lceil>real (length b) * 8 / 5\<rceil>"
    by blast
next
  assume "\<forall>c \<in> set (stripWhitespace t). isBase32Letter c"
  then obtain out where "base32Decode t = Inr out"
    and "length out = (5 * length (stripWhitespace t)) div 8"
    using base32Decode_length_nat [of t] by blast
  then show "\<exists>out. base32Decode t = Inr out
      \<and> int (length out) = \<lfloor>real (length (stripWhitespace t)) * 5 / 8\<rfloor>"
    by (simp add: floor_5_8)
qed

theorem base32_roundtrip_and_lengths_witness:
  "\<lceil>real (length [1, 2, 3 :: byte]) * 8 / 5\<rceil> \<le> int maxStringLength
   \<and> (\<exists>s. base32Encode [1, 2, 3] = Inr s \<and> base32Decode s = Inr [1, 2, 3]
          \<and> int (length s) = \<lceil>real (length [1, 2, 3 :: byte]) * 8 / 5\<rceil>)
   \<and> list_all isBase32Letter (stripWhitespace ''ge zd gn b'')
   \<and> (\<exists>out. base32Decode ''ge zd gn b'' = Inr out
          \<and> int (length out) = \<lfloor>real (length (stripWhitespace ''ge zd gn b'')) * 5 / 8\<rfloor>)"
proof -
  have f: "\<lceil>real (length [1, 2, 3 :: byte]) * 8 / 5\<rceil> \<le> int maxStringLength"
    by (simp only: ceil_8_5 of_nat_le_iff) (simp add: maxStringLength_def)
  have h: "list_all isBase32Letter (stripWhitespace ''ge zd gn b'')"
    by (simp add: stripWhitespace_def isSpace_def isBase32Letter_def)
  then have "\<forall>c \<in> set (stripWhitespace ''ge zd gn b''). isBase32Letter c"
    by (simp only: list_all_iff)
  with base32_roundtrip_and_lengths [of "[1, 2, 3]" "''ge zd gn b''"] f h show ?thesis
    by blast
qed

text \<open>
  Without the bound the claim fails: the encoding of 335544306 bytes would have 536870890
  characters, two more than the longest string, and \<open>base32Encode\<close> throws when its output
  reaches that length.
\<close>

theorem base32Encode_length_counterexample:
  "base32Encode (replicate 335544306 0) = Inl InvalidStringLength"
  by (rule base32Encode_overflow) (simp add: maxStringLength_def)

subsection \<open>Test vectors\<close>

text \<open>
  Evaluation of SHA-1 by rewriting: the equations of the schedule, of the rounds and of the
  final addition, with every new word reduced modulo \<open>2^32\<close>.
\<close>

lemma norm32_numeral:
  "norm32 (numeral n) = word_of_nat (unat (numeral n :: int32))"
  "norm32 (- numeral n) = word_of_nat (unat (- numeral n :: int32))"
  "norm32 0 = 0" "norm32 1 = 1"
  unfolding norm32_def by (simp_all only: of_nat_unat ucast_id)

lemma norm64_numeral:
  "norm64 (numeral n) = word_of_nat (unat (numeral n :: uint64))"
  "norm64 (- numeral n) = word_of_nat (unat (- numeral n :: uint64))"
  "norm64 0 = 0" "norm64 1 = 1"
  unfolding norm64_def by (simp_all only: of_nat_unat ucast_id)

lemma replicate_numeral: "replicate (numeral k) x = x # replicate (pred_numeral k) x"
  by (simp add: numeral_eq_Suc)

lemma sha1_rounds_norm:
  "sha1_rounds t (w # ws) (a, b, c, d, e) =
     sha1_rounds (t + 1) ws
       (norm32 (rotl32 5 a + sha1_f t b c d + e + sha1_K t + w), a, norm32 (rotl32 30 b), c, d)"
  by (simp add: norm32_def)

lemma sha1_schedule_norm:
  "sha1_schedule ws =
     (if 80 \<le> length ws then ws
      else sha1_schedule (norm32 (rotl32 1 (ws ! 2 XOR ws ! 7 XOR ws ! 13 XOR ws ! 15)) # ws))"
  by (subst sha1_schedule.simps) (simp add: norm32_def)

lemma sha1_add_norm:
  "sha1_add (h0, h1, h2, h3, h4) (a, b, c, d, e)
     = (norm32 (h0 + a), norm32 (h1 + b), norm32 (h2 + c), norm32 (h3 + d), norm32 (h4 + e))"
  by (simp add: norm32_def)

lemmas sha1_eval = sha1_def sha_pad_def be64_def replicate_numeral sha1_blocks.simps
  sha1_compress_def sha1_schedule_norm sha1_rounds_norm sha1_add_norm norm32_numeral
  rotl32_def sha1_f_def sha1_K_def hmacWith_def hmac_key_def

text \<open>The digests of the message \<open>abc\<close> given in FIPS 180-4 for SHA-256 and SHA-512.\<close>

lemma sha256_rounds_norm:
  "sha256_rounds (k # ks) (w # ws) [a, b, c, d, e, f, g, h] =
     sha256_rounds ks ws
       [norm32 ((h + sha256_S1 e + sha2_Ch e f g + k + w) + (sha256_S0 a + sha2_Maj a b c)),
        a, b, c, norm32 (d + (h + sha256_S1 e + sha2_Ch e f g + k + w)), e, f, g]"
  by (simp add: norm32_def)

lemma sha256_schedule_norm:
  "sha256_schedule ws =
     (if 64 \<le> length ws then ws
      else sha256_schedule
             (norm32 (sha256_s1 (ws ! 1) + ws ! 6 + sha256_s0 (ws ! 14) + ws ! 15) # ws))"
  by (subst sha256_schedule.simps) (simp add: norm32_def)

lemma sha2_add_norm32:
  "sha2_add (x # xs) (y # ys) = norm32 (x + y) # sha2_add xs ys"
  by (simp add: norm32_def)

lemma sha512_rounds_norm:
  "sha512_rounds (k # ks) (w # ws) [a, b, c, d, e, f, g, h] =
     sha512_rounds ks ws
       [norm64 ((h + sha512_S1 e + sha2_Ch e f g + k + w) + (sha512_S0 a + sha2_Maj a b c)),
        a, b, c, norm64 (d + (h + sha512_S1 e + sha2_Ch e f g + k + w)), e, f, g]"
  by (simp add: norm64_def)

lemma sha512_schedule_norm:
  "sha512_schedule ws =
     (if 80 \<le> length ws then ws
      else sha512_schedule
             (norm64 (sha512_s1 (ws ! 1) + ws ! 6 + sha512_s0 (ws ! 14) + ws ! 15) # ws))"
  by (subst sha512_schedule.simps) (simp add: norm64_def)

lemma sha2_add_norm64:
  "sha2_add (x # xs) (y # ys) = norm64 (x + y) # sha2_add xs ys"
  by (simp add: norm64_def)

lemma sha256_abc:
  "sha256 [0x61, 0x62, 0x63] =
     [186, 120, 22, 191, 143, 1, 207, 234, 65, 65, 64, 222, 93, 174, 34, 35, 176, 3, 97,
      163, 150, 23, 122, 156, 180, 16, 255, 97, 242, 0, 21, 173]"
  by (simp add: sha256_def sha_pad_def be64_def replicate_numeral sha256_blocks.simps
      sha256_compress_def sha256_schedule_norm sha256_rounds_norm sha2_add_norm32 norm32_numeral
      sha256_K_def sha256_H0_def sha256_s0_def sha256_s1_def sha256_S0_def sha256_S1_def
      sha2_Ch_def sha2_Maj_def rotr_def
      del: sha256_rounds.simps(1) sha2_add.simps(1))

lemma sha512_abc:
  "sha512 [0x61, 0x62, 0x63] =
     [221, 175, 53, 161, 147, 97, 122, 186, 204, 65, 115, 73, 174, 32, 65, 49, 18, 230,
      250, 78, 137, 169, 126, 162, 10, 158, 238, 230, 75, 85, 211, 154, 33, 146, 153, 42,
      39, 79, 193, 168, 54, 186, 60, 35, 163, 254, 235, 189, 69, 77, 68, 35, 100, 60, 232,
      14, 42, 154, 201, 79, 165, 76, 164, 159]"
  by (simp add: sha512_def sha512_pad_def be128_def replicate_numeral sha512_blocks.simps
      sha512_compress_def sha512_schedule_norm sha512_rounds_norm sha2_add_norm64 norm64_numeral
      sha512_K_def sha512_H0_def sha512_s0_def sha512_s1_def sha512_S0_def sha512_S1_def
      sha2_Ch_def sha2_Maj_def rotr_def
      del: sha512_rounds.simps(1) sha2_add.simps(1))

text \<open>The secret and the two HMAC values behind the test vectors of RFC 6238.\<close>

lemma rfc_secret_decodes:
  "base32Decode ''GEZDGNBVGY3TQOJQGEZDGNBVGY3TQOJQ''
     = Inr [49, 50, 51, 52, 53, 54, 55, 56, 57, 48, 49, 50, 51, 52, 53, 54, 55, 56, 57, 48]"
  by (simp add: base32Decode_def stripWhitespace_def toUpperCase_def toUpperUnits_def
      codeUnits_def isSpace_def BASE32_CHARS_def replicate_numeral Let_def maxStringLength_def)

lemma hmac_sha1_counter_1:
  "hmacWith sha1 64
     [49, 50, 51, 52, 53, 54, 55, 56, 57, 48, 49, 50, 51, 52, 53, 54, 55, 56, 57, 48]
     [0, 0, 0, 0, 0, 0, 0, 1]
   = [117, 164, 138, 25, 212, 203, 225, 0, 100, 78, 138, 193, 57, 126, 234, 116, 122, 45, 51,
      171]"
  by (simp add: sha1_eval del: sha1_rounds.simps(2) sha1_add.simps)

lemma hmac_sha1_counter_37037036:
  "hmacWith sha1 64
     [49, 50, 51, 52, 53, 54, 55, 56, 57, 48, 49, 50, 51, 52, 53, 54, 55, 56, 57, 48]
     [0, 0, 0, 0, 2, 53, 35, 236]
   = [39, 140, 2, 229, 54, 16, 248, 76, 64, 189, 145, 53, 172, 212, 16, 16, 18, 65, 10, 20]"
  by (simp add: sha1_eval del: sha1_rounds.simps(2) sha1_add.simps)

lemma rfc_counters:
  "counterBytes (59 div 30) = [0, 0, 0, 0, 0, 0, 0, 1]"
  "counterBytes (1111111109 div 30) = [0, 0, 0, 0, 2, 53, 35, 236]"
  by (simp_all add: counterBytes_unfold)

lemma rfc_codes:
  "sint (truncCode [117, 164, 138, 25, 212, 203, 225, 0, 100, 78, 138, 193, 57, 126, 234, 116,
     122, 45, 51, 171]) = 1094287082"
  "sint (truncCode [39, 140, 2, 229, 54, 16, 248, 76, 64, 189, 145, 53, 172, 212, 16, 16, 18,
     65, 10, 20]) = 907081804"
  by (simp_all add: truncCode_def truncOffset_def byteAt_def Let_def)

lemma rfc_strings:
  "padStart 6 CHR ''0'' (numToString (jsRem 1094287082 (10 ^ 6))) = Inr ''287082''"
  "padStart 6 CHR ''0'' (numToString (jsRem 907081804 (10 ^ 6))) = Inr ''081804''"
  by (simp_all add: padStart_def maxStringLength_def numToString_def jsRem_def
      natToString.simps digitChar_def char_of_eq_iff)

lemma rfc_tokens:
  "generateTOTP nodeHmac ''GEZDGNBVGY3TQOJQGEZDGNBVGY3TQOJQ'' (num 59) (num 30) 6 ''SHA-1''
     = Inr ''287082''"
  "generateTOTP nodeHmac ''GEZDGNBVGY3TQOJQGEZDGNBVGY3TQOJQ'' (num 1111111109) (num 30) 6
     ''SHA-1'' = Inr ''081804''"
proof -
  have a: "algoMap ''SHA-1'' = Some ''sha1''"
    by (simp add: algoMap_def)
  have h: "nodeHmac ''sha1'' = hmacWith sha1 64"
    by (rule ext)+ (simp add: nodeHmac_def)
  have g: "generateTOTP nodeHmac ''GEZDGNBVGY3TQOJQGEZDGNBVGY3TQOJQ'' (num ts) (num 30) 6
      ''SHA-1''
    = padStart 6 CHR ''0'' (numToString (jsRem (sint (truncCode (hmacWith sha1 64
        [49, 50, 51, 52, 53, 54, 55, 56, 57, 48, 49, 50, 51, 52, 53, 54, 55, 56, 57, 48]
        (counterBytes (ts div 30))))) (10 ^ 6)))"
    if "\<bar>ts\<bar> < 2 ^ 53" for ts
    using that
    by (simp add: generateTOTP_num rfc_secret_decodes generateHOTP_supported [OF a] h)
  show "generateTOTP nodeHmac ''GEZDGNBVGY3TQOJQGEZDGNBVGY3TQOJQ'' (num 59) (num 30) 6 ''SHA-1''
      = Inr ''287082''"
    by (subst g, simp)
      (simp only: rfc_counters hmac_sha1_counter_1 rfc_codes rfc_strings)
  show "generateTOTP nodeHmac ''GEZDGNBVGY3TQOJQGEZDGNBVGY3TQOJQ'' (num 1111111109) (num 30) 6
      ''SHA-1'' = Inr ''081804''"
    by (subst g, simp)
      (simp only: rfc_counters hmac_sha1_counter_37037036 rfc_codes rfc_strings)
qed

text \<open>
  Claim C1. With the secret \<open>GEZDGNBVGY3TQOJQGEZDGNBVGY3TQOJQ\<close>, step 30, six digits and
  SHA-1, and with the HMAC that Node computes, \<open>generateTOTP\<close> returns \<open>287082\<close> at time
  stamp 59 and \<open>081804\<close> at time stamp 1111111109.
\<close>

theorem rfc6238_sha1_vectors:
  "generateTOTP nodeHmac ''GEZDGNBVGY3TQOJQGEZDGNBVGY3TQOJQ'' (num 59) (num 30) 6 ''SHA-1''
     = Inr ''287082''
   \<and> generateTOTP nodeHmac ''GEZDGNBVGY3TQOJQGEZDGNBVGY3TQOJQ'' (num 1111111109) (num 30) 6
       ''SHA-1'' = Inr ''081804''"
proof
  show "generateTOTP nodeHmac ''GEZDGNBVGY3TQOJQGEZDGNBVGY3TQOJQ'' (num 59) (num 30) 6 ''SHA-1''
      = Inr ''287082''"
    by (rule rfc_tokens(1))
  show "generateTOTP nodeHmac ''GEZDGNBVGY3TQOJQGEZDGNBVGY3TQOJQ'' (num 1111111109) (num 30) 6
      ''SHA-1'' = Inr ''081804''"
    by (rule rfc_tokens(2))
qed

subsection \<open>Instances\<close>

theorem verifyTOTP_window_witness:
  "(0 :: int) \<le> 89 \<and> (0 :: int) < 30 \<and> (0 :: int) \<le> 1 \<and> \<bar>1 :: int\<bar> \<le> 1
   \<and> 30 \<le> maxSafeInteger \<and> 89 + 1 * 30 \<le> maxSafeInteger
   \<and> generateTOTP nodeHmac ''GEZDGNBVGY3TQOJQGEZDGNBVGY3TQOJQ'' (num (89 - 1 * 30)) (num 30) 6
        ''SHA-1'' = Inr ''287082''
   \<and> verifyTOTP nodeHmac ''GEZDGNBVGY3TQOJQGEZDGNBVGY3TQOJQ'' ''287082'' (num 89) (num 1)
        (num 30) 6 ''SHA-1'' = Some (Inr True)
   \<and> verifyTOTP nodeHmac ''GEZDGNBVGY3TQOJQGEZDGNBVGY3TQOJQ'' ''287082'' (num 59) (num 0)
        (num 30) 6 ''SHA-1'' = Some (Inr True)"
proof -
  have m: "30 \<le> maxSafeInteger" "89 + 1 * 30 \<le> maxSafeInteger" "59 + 0 * 30 \<le> maxSafeInteger"
    by (simp_all add: maxSafeInteger_def)
  have g: "generateTOTP nodeHmac ''GEZDGNBVGY3TQOJQGEZDGNBVGY3TQOJQ'' (num (89 - 1 * 30))
      (num 30) 6 ''SHA-1'' = Inr ''287082''"
    using rfc_tokens(1) by simp
  have "verifyTOTP nodeHmac ''GEZDGNBVGY3TQOJQGEZDGNBVGY3TQOJQ'' ''287082'' (num 89) (num 1)
      (num 30) 6 ''SHA-1'' = Some (Inr True)"
    using verifyTOTP_window [of 89 30 1 1, OF _ _ _ _ m(1,2), THEN conjunct1] g by simp
  moreover have "verifyTOTP nodeHmac ''GEZDGNBVGY3TQOJQGEZDGNBVGY3TQOJQ'' ''287082'' (num 59)
      (num 0) (num 30) 6 ''SHA-1'' = Some (Inr True)"
    using verifyTOTP_window [of 59 30 0 0, OF _ _ _ _ m(1,3), THEN conjunct2] rfc_tokens(1)
    by simp
  ultimately show ?thesis
    using m(1,2) g by simp
qed

theorem verifyToken_normalizes_witness:
  "normalizeToken ''287-082'' \<noteq> []
   \<and> verifyToken nodeHmac (num 59) (Secret ''GEZDGNBVGY3TQOJQGEZDGNBVGY3TQOJQ'')
       (Some ''287-082'')
     = verifyToken nodeHmac (num 59) (Secret ''GEZDGNBVGY3TQOJQGEZDGNBVGY3TQOJQ'')
         (Some (normalizeToken ''287-082''))
   \<and> isDouble (num 59)
   \<and> verifyToken nodeHmac (num 59)
       (Options \<lparr>opt_secret = ''GEZDGNBVGY3TQOJQGEZDGNBVGY3TQOJQ'', opt_step = None,
          opt_digits = None, opt_algorithm = None, opt_timestamp = None,
          opt_token = ''287-082'', opt_window = Some (num 0)\<rparr>) None
     = Some (Inr True)"
proof -
  have n: "normalizeToken ''287-082'' = ''287082''"
    by (simp add: normalizeToken_def isSpace_def)
  then have h: "normalizeToken ''287-082'' \<noteq> []"
    by simp
  have d: "isDouble (num 59)"
    by (rule isDouble_num) simp
  have "verifyToken nodeHmac (num 59)
       (Options \<lparr>opt_secret = ''GEZDGNBVGY3TQOJQGEZDGNBVGY3TQOJQ'', opt_step = None,
          opt_digits = None, opt_algorithm = None, opt_timestamp = None,
          opt_token = ''287-082'', opt_window = Some (num 0)\<rparr>) None
     = Some (Inr (normalizeToken ''287-082'' = ''287082''))"
    using verifyToken_normalizes [OF h, of nodeHmac "num 59" _
        "''GEZDGNBVGY3TQOJQGEZDGNBVGY3TQOJQ''" "''287082''"] rfc_tokens(1) d
    by blast
  with verifyToken_normalizes [OF h, of nodeHmac "num 59"] h n d show ?thesis
    by simp
qed

text \<open>
  The claim C9 as it is written fails for a candidate made of hyphens only: \<open>verifyToken\<close>
  returns false for it, and raises an error for what is left of it after normalisation,
  the empty string.
\<close>

theorem verifyToken_hyphen_counterexample:
  "verifyToken nodeHmac (num 59)
     (Options \<lparr>opt_secret = ''GEZDGNBVGY3TQOJQGEZDGNBVGY3TQOJQ'', opt_step = None,
        opt_digits = None, opt_algorithm = None, opt_timestamp = None, opt_token = ''-'',
        opt_window = None\<rparr>) None = Some (Inr False)
   \<and> verifyToken nodeHmac (num 59)
     (Options \<lparr>opt_secret = ''GEZDGNBVGY3TQOJQGEZDGNBVGY3TQOJQ'', opt_step = None,
        opt_digits = None, opt_algorithm = None, opt_timestamp = None,
        opt_token = normalizeToken ''-'', opt_window = None\<rparr>) None
     = Some (Inl SecretAndTokenRequired)"
proof -
  have n: "normalizeToken ''-'' = []" by (simp add: normalizeToken_def)
  have "verify_for nodeHmac ''GEZDGNBVGY3TQOJQGEZDGNBVGY3TQOJQ'' [] (num 59) (num 1) (num 30)
      6 ''SHA-1'' (num (- 1)) = Some (Inr False)"
    by (rule verify_for_empty_token [OF _ _ _ _ _ rfc_tokens(1)]) simp_all
  then have "verifyTOTP nodeHmac ''GEZDGNBVGY3TQOJQGEZDGNBVGY3TQOJQ'' [] (num 59) (num 1)
      (num 30) 6 ''SHA-1'' = Some (Inr False)"
    by (simp add: verifyTOTP_def jsNeg_num)
  then show ?thesis
    by (simp add: verifyToken_def verifyToken_checked_def orNumber_def orNum_def orStr_def n)
qed

text \<open>
  The claim C4 as it is written fails where the arithmetic of doubles overflows. At time
  stamp 0 with the step \<open>2^1023\<close>, a positive integer, and window 2 the token of \<open>k = 0\<close>
  exists, but the first offset of the window, \<open>-2 * 2^1023\<close>, is \<open>-Infinity\<close>:
  \<open>verifyTOTP\<close> throws the RangeError of \<open>BigInt\<close> before it reaches the token.
\<close>

theorem verifyTOTP_overflow_counterexample:
  "(0 :: int) \<le> 0 \<and> (0 :: int) < 2 ^ 1023 \<and> (0 :: int) \<le> 2 \<and> \<bar>0 :: int\<bar> \<le> 2
   \<and> (\<exists>tok. generateTOTP nodeHmac ''GEZDGNBVGY3TQOJQGEZDGNBVGY3TQOJQ''
              (num (0 - 0 * 2 ^ 1023)) (num (2 ^ 1023)) 6 ''SHA-1'' = Inr tok
          \<and> verifyTOTP nodeHmac ''GEZDGNBVGY3TQOJQGEZDGNBVGY3TQOJQ'' tok (num 0) (num 2)
              (num (2 ^ 1023)) 6 ''SHA-1'' = Some (Inl BigIntRangeError))"
proof -
  define st :: int where "st = 2 ^ 1023"
  have pos: "0 < st"
    by (simp add: st_def)
  have a: "algoMap ''SHA-1'' = Some ''sha1''"
    by (simp add: algoMap_def)
  have c: "BigInt (Math_floor (jsDiv (num 0) (num st))) = Inr 0"
    using pos by (simp add: num_def fl_def)
  have "\<exists>tok. generateHOTP nodeHmac
      [49, 50, 51, 52, 53, 54, 55, 56, 57, 48, 49, 50, 51, 52, 53, 54, 55, 56, 57, 48] 0 6
      ''SHA-1'' = Inr tok"
    by (rule generateHOTP_returns [OF a]) (simp add: maxStringLength_def)
  then obtain tok where tok: "generateTOTP nodeHmac ''GEZDGNBVGY3TQOJQGEZDGNBVGY3TQOJQ''
      (num 0) (num st) 6 ''SHA-1'' = Inr tok"
    by (auto simp: generateTOTP_def rfc_secret_decodes c)
  have "(2 :: rat) powi 1024 \<le> \<bar>of_int (- 2) * of_int st\<bar>"
    by (simp only: power_int_numeral st_def) simp
  then have "fl (of_int (- 2) * of_int st) = NegInf"
    using pos by (subst fl_overflow) (simp_all add: mult_less_0_iff)
  then have m: "jsAdd (num 0) (jsMul (num (- 2)) (num st)) = NegInf"
    by (simp add: num_def)
  have "verify_for nodeHmac ''GEZDGNBVGY3TQOJQGEZDGNBVGY3TQOJQ'' tok (num 0) (num 2)
      (num st) 6 ''SHA-1'' (num (- 2)) = Some (Inl BigIntRangeError)"
    by (subst verify_for.simps)
      (simp add: jsLe_num m generateTOTP_infinite [OF rfc_secret_decodes _ pos])
  then have "verifyTOTP nodeHmac ''GEZDGNBVGY3TQOJQGEZDGNBVGY3TQOJQ'' tok (num 0) (num 2)
      (num st) 6 ''SHA-1'' = Some (Inl BigIntRangeError)"
    by (simp add: verifyTOTP_def jsNeg_num)
  with tok pos show ?thesis
    unfolding st_def by auto
qed

end
